(* ===== verification/Prelude.thy ===== *)
theory Prelude
  imports Main "HOL-Library.Word"
begin

text \<open>
  Shared vocabulary of the kiosk front-end development: the character classes of
  JavaScript regular expressions restricted to 8-bit code units, the string helpers
  the JavaScript built-ins share (\<open>join\<close>, replacing every occurrence of one
  character), an exception-and-state bind for code that threads a random source and
  may throw, and the named theorem collections the component theories fill.
\<close>

named_theorems js_simps "evaluation rules of the JavaScript runtime model"
named_theorems zod_simps "evaluation rules of the zod validator model"
named_theorems scan_simps "evaluation rules of the highlighter scan"

subsection \<open>Characters\<close>

text \<open>
  Isabelle's \<open>char\<close> is an 8-bit code unit; JavaScript strings are UTF-16. The model reads
  a \<open>char\<close> as a UTF-16 code unit below 256 (Latin-1), so the regex classes below are the
  ECMAScript classes restricted to that range.
\<close>

abbreviation dquote :: char where "dquote \<equiv> CHR 0x22"
abbreviation backslash :: char where "backslash \<equiv> CHR 0x5C"

definition is_digit :: "char \<Rightarrow> bool" where
  "is_digit c \<longleftrightarrow> 48 \<le> (of_char c :: nat) \<and> (of_char c :: nat) \<le> 57"

text \<open>\<open>[a-zA-Z0-9]\<close>\<close>
definition is_alnum :: "char \<Rightarrow> bool" where
  "is_alnum c \<longleftrightarrow> is_digit c \<or> (97 \<le> (of_char c :: nat) \<and> (of_char c :: nat) \<le> 122)
     \<or> (65 \<le> (of_char c :: nat) \<and> (of_char c :: nat) \<le> 90)"

text \<open>\<open>\w\<close>, the word characters that decide \<open>\b\<close>\<close>
definition is_word_char :: "char \<Rightarrow> bool" where
  "is_word_char c \<longleftrightarrow> is_alnum c \<or> c = CHR ''_''"

text \<open>\<open>\s\<close>: tab, line feed, vertical tab, form feed, carriage return, space, no-break space\<close>
definition is_js_space :: "char \<Rightarrow> bool" where
  "is_js_space c \<longleftrightarrow> c \<in> {CHR 0x09, CHR 0x0A, CHR 0x0B, CHR 0x0C, CHR 0x0D, CHR 0x20, CHR 0xA0}"

lemma is_digit_alnum [simp]: "is_digit c \<Longrightarrow> is_alnum c"
  by (simp add: is_alnum_def)

lemma is_alnum_word [simp]: "is_alnum c \<Longrightarrow> is_word_char c"
  by (simp add: is_word_char_def)

subsection \<open>Strings\<close>

text \<open>\<open>Array.prototype.join\<close> on strings: the separator between consecutive items.\<close>

fun join :: "string \<Rightarrow> string list \<Rightarrow> string" where
  "join sep [] = []"
| "join sep [x] = x"
| "join sep (x # y # zs) = x @ sep @ join sep (y # zs)"

text \<open>\<open>s.replace(/c/g, r)\<close> for a one-character pattern: every occurrence is replaced.\<close>

definition replace_char :: "char \<Rightarrow> string \<Rightarrow> string \<Rightarrow> string" where
  "replace_char c r s = concat (map (\<lambda>x. if x = c then r else [x]) s)"

lemma replace_char_simps [simp]:
  "replace_char c r [] = []"
  "replace_char c r (x # xs) = (if x = c then r else [x]) @ replace_char c r xs"
  by (simp_all add: replace_char_def)

lemma replace_char_append [simp]:
  "replace_char c r (xs @ ys) = replace_char c r xs @ replace_char c r ys"
  by (simp add: replace_char_def)

lemma set_replace_char:
  "set (replace_char c r s) = (set s - {c}) \<union> (if c \<in> set s then set r else {})"
  by (induction s) auto

lemma replace_char_id [simp]: "c \<notin> set s \<Longrightarrow> replace_char c r s = s"
  by (induction s) auto

text \<open>\<open>replicate\<close> at a numeral, for evaluating strings built with a repeat count.\<close>

lemma replicate_numeral: "replicate (numeral k) x = x # replicate (pred_numeral k) x"
  by (simp add: numeral_eq_Suc)

subsection \<open>Exception and state\<close>

text \<open>
  A computation that reads and advances a state and may throw: the shape of a
  JavaScript function that consumes a random source. \<open>ebind\<close> runs the second
  computation on the state the first one left, and propagates the first exception.
\<close>

type_synonym ('s, 'e, 'a) exc_state = "'s \<Rightarrow> 'e + ('a \<times> 's)"

definition ereturn :: "'a \<Rightarrow> ('s, 'e, 'a) exc_state" where
  "ereturn a s = Inr (a, s)"

definition ebind :: "('s, 'e, 'a) exc_state \<Rightarrow> ('a \<Rightarrow> ('s, 'e, 'b) exc_state) \<Rightarrow> ('s, 'e, 'b) exc_state" where
  "ebind m f s = (case m s of Inl e \<Rightarrow> Inl e | Inr (a, s') \<Rightarrow> f a s')"

lemma ebind_Inr [simp]: "m s = Inr (a, s') \<Longrightarrow> ebind m f s = f a s'"
  by (simp add: ebind_def)

lemma ebind_Inl [simp]: "m s = Inl e \<Longrightarrow> ebind m f s = Inl e"
  by (simp add: ebind_def)

lemma ereturn_apply [simp]: "ereturn a s = Inr (a, s)"
  by (simp add: ereturn_def)

end
