(* ===== verification/JsValue.thy ===== *)
theory JsValue
  imports Prelude
begin

text \<open>
  JavaScript values as the validators and \<open>JSON.stringify\<close> see them: the input of a
  zod schema is an arbitrary value (\<open>unknown\<close>), the argument of \<open>highlight\<close> is
  \<open>any\<close>. A number is modelled by the shortest decimal that denotes it,
  \<open>Finite m e\<close> standing for \<open>m \<cdot> 10^e\<close>, plus \<open>NaN\<close> and the two infinities; an
  object is the list of its own enumerable properties in property order.
\<close>

datatype jsnum = Finite int int | NaN | PosInf | NegInf

datatype jsval =
    JUndefined
  | JNull
  | JBool bool
  | JNumber jsnum
  | JString string
  | JArray "jsval list"
  | JObject "(string \<times> jsval) list"

text \<open>
  \<open>Number.isInteger\<close> and the integer it denotes. Representing a double by its shortest
  decimal keeps integrality: below \<open>2^53\<close> every integer is a double, so the shortest
  decimal of a non-integer is not an integer, and above it every double is an integer.
\<close>

definition num_is_integer :: "int \<Rightarrow> int \<Rightarrow> bool" where
  "num_is_integer m e \<longleftrightarrow> 0 \<le> e \<or> (10::int) ^ nat (- e) dvd m"

definition num_int_value :: "int \<Rightarrow> int \<Rightarrow> int" where
  "num_int_value m e = (if 0 \<le> e then m * 10 ^ nat e else m div 10 ^ nat (- e))"

lemma num_is_integer_0 [simp]: "num_is_integer m 0"
  by (simp add: num_is_integer_def)

lemma num_int_value_0 [simp]: "num_int_value m 0 = m"
  by (simp add: num_int_value_def)

text \<open>Property read \<open>o[k]\<close>: a missing property reads as \<open>undefined\<close>.\<close>

definition js_get :: "jsval \<Rightarrow> string \<Rightarrow> jsval" where
  "js_get v k = (case v of JObject kvs \<Rightarrow> (case map_of kvs k of Some x \<Rightarrow> x | None \<Rightarrow> JUndefined)
                         | _ \<Rightarrow> JUndefined)"

lemma js_get_Cons [simp, js_simps]:
  "js_get (JObject ((k', x) # kvs)) k = (if k = k' then x else js_get (JObject kvs) k)"
  by (simp add: js_get_def)

lemma js_get_Nil [simp, js_simps]: "js_get (JObject []) k = JUndefined"
  by (simp add: js_get_def)

lemma js_get_append_fresh:
  "k \<notin> fst ` set extra \<Longrightarrow> js_get (JObject (kvs @ extra)) k = js_get (JObject kvs) k"
proof -
  assume "k \<notin> fst ` set extra"
  then have "map_of extra k = None" by (simp add: map_of_eq_None_iff)
  then show ?thesis by (simp add: js_get_def map_add_def split: option.split)
qed

text \<open>\<open>typeof v === "object" && v !== null && !Array.isArray(v)\<close>\<close>

definition is_object :: "jsval \<Rightarrow> bool" where
  "is_object v \<longleftrightarrow> (case v of JObject _ \<Rightarrow> True | _ \<Rightarrow> False)"

lemma is_object_simps [simp]:
  "is_object (JObject kvs)" "\<not> is_object JUndefined" "\<not> is_object JNull" "\<not> is_object (JBool b)"
  "\<not> is_object (JNumber n)" "\<not> is_object (JString s)" "\<not> is_object (JArray xs)"
  by (simp_all add: is_object_def)

end
