(* ===== verification/SensorData.thy ===== *)
theory SensorData
  imports JsValue
begin

text \<open>
  \<open>src/lib/types/sensorData.ts\<close> (the \<open>SensorData\<close> shape) and
  \<open>src/lib/utils/generateSensorData.ts\<close>. The generator reads the clock once
  (\<open>new Date()\<close>, the parameter \<open>now\<close>, a time value in milliseconds) and calls
  \<open>faker.number.int\<close> six times, in the order of the object literal. faker is a
  dependency: its \<open>number.int\<close> is the parameter \<open>number_int\<close>, a computation over the
  random source \<open>'r\<close> that may throw, and \<open>int_contract\<close> states what faker documents
  for it.
\<close>

record sensor_data =
  sd_kiosk :: jsnum
  sd_time :: int
  sd_temperature :: jsnum
  sd_humidity :: jsnum
  sd_pressure :: jsnum
  sd_air_quality :: jsnum
  sd_current :: jsnum
  sd_voltage :: jsnum

text \<open>The argument of \<open>faker.number.int\<close>: a bare maximum, or \<open>{min, max}\<close>.\<close>

datatype int_options = IntMax int | IntRange int int

datatype faker_error = MaxBelowMin int int

type_synonym 'r faker_int = "int_options \<Rightarrow> ('r, faker_error, int) exc_state"

definition opts_range :: "int_options \<Rightarrow> int \<times> int" where
  "opts_range opts = (case opts of IntMax hi \<Rightarrow> (0, hi) | IntRange lo hi \<Rightarrow> (lo, hi))"

definition js_num :: "int \<Rightarrow> jsnum" where
  "js_num n = Finite n 0"

definition generateSensorData ::
    "'r faker_int \<Rightarrow> jsnum \<Rightarrow> int \<Rightarrow> ('r, faker_error, sensor_data) exc_state" where
  "generateSensorData number_int kiosk_id now =
     ebind (number_int (IntMax 100)) (\<lambda>temperature.
     ebind (number_int (IntRange 30 60)) (\<lambda>humidity.
     ebind (number_int (IntMax 100)) (\<lambda>pressure.
     ebind (number_int (IntMax 10)) (\<lambda>air_quality.
     ebind (number_int (IntMax 10)) (\<lambda>current.
     ebind (number_int (IntMax 12)) (\<lambda>voltage.
     ereturn \<lparr>sd_kiosk = kiosk_id, sd_time = now, sd_temperature = js_num temperature,
       sd_humidity = js_num humidity, sd_pressure = js_num pressure,
       sd_air_quality = js_num air_quality, sd_current = js_num current,
       sd_voltage = js_num voltage\<rparr>))))))"

subsection \<open>The contract of \<open>faker.number.int\<close>\<close>

text \<open>
  For options with \<open>min \<le> max\<close>, \<open>number.int\<close> returns an integer in \<open>[min, max]\<close>
  and does not throw.
\<close>

definition int_contract :: "'r faker_int \<Rightarrow> bool" where
  "int_contract f \<longleftrightarrow> (\<forall>opts r. fst (opts_range opts) \<le> snd (opts_range opts) \<longrightarrow>
     (\<exists>n r'. f opts r = Inr (n, r') \<and> fst (opts_range opts) \<le> n \<and> n \<le> snd (opts_range opts)))"

definition in_range :: "int \<Rightarrow> int \<Rightarrow> jsnum \<Rightarrow> bool" where
  "in_range lo hi x \<longleftrightarrow> (\<exists>n. x = Finite n 0 \<and> lo \<le> n \<and> n \<le> hi)"

lemma int_contract_call:
  assumes "int_contract f" and "opts_range opts = (lo, hi)" and "lo \<le> hi"
  obtains n r' where "f opts r = Inr (n, r')" and "in_range lo hi (js_num n)"
proof -
  from assms have "\<exists>n r'. f opts r = Inr (n, r') \<and> lo \<le> n \<and> n \<le> hi"
    unfolding int_contract_def by (metis fst_conv snd_conv)
  then obtain n r' where "f opts r = Inr (n, r')" and "lo \<le> n" and "n \<le> hi" by blast
  with that show thesis by (simp add: in_range_def js_num_def)
qed

lemma opts_range_simps [simp]: "opts_range (IntMax hi) = (0, hi)" "opts_range (IntRange lo hi) = (lo, hi)"
  by (simp_all add: opts_range_def)

text \<open>
  A stand-in for faker that always returns the lower bound, with faker's error on an empty
  range; it meets the contract and lets the generator be evaluated.
\<close>

definition faker_min :: "unit faker_int" where
  "faker_min opts r = (case opts_range opts of (lo, hi) \<Rightarrow>
     if hi < lo then Inl (MaxBelowMin hi lo) else Inr (lo, r))"

lemma int_contract_faker_min: "int_contract faker_min"
  by (auto simp: int_contract_def faker_min_def split: prod.splits)

subsection \<open>Properties\<close>

text \<open>
  C14. With any \<open>faker.number.int\<close> that keeps its documented range, the generator does
  not throw, returns the given kiosk id and clock reading, and each of the six readings is
  an integer in its documented range: temperature and pressure in \<open>[0, 100]\<close>, humidity
  in \<open>[30, 60]\<close>, air quality and current in \<open>[0, 10]\<close>, voltage in \<open>[0, 12]\<close>.
\<close>

theorem generateSensorData_bounds:
  assumes "int_contract number_int"
  shows "\<exists>d r'. generateSensorData number_int kiosk_id now r = Inr (d, r') \<and>
     sd_kiosk d = kiosk_id \<and> sd_time d = now \<and>
     in_range 0 100 (sd_temperature d) \<and> in_range 30 60 (sd_humidity d) \<and>
     in_range 0 100 (sd_pressure d) \<and> in_range 0 10 (sd_air_quality d) \<and>
     in_range 0 10 (sd_current d) \<and> in_range 0 12 (sd_voltage d)"
proof -
  obtain t r1 where t: "number_int (IntMax 100) r = Inr (t, r1)" "in_range 0 100 (js_num t)"
    using int_contract_call [OF assms, of "IntMax 100" 0 100] by auto
  obtain h r2 where h: "number_int (IntRange 30 60) r1 = Inr (h, r2)" "in_range 30 60 (js_num h)"
    using int_contract_call [OF assms, of "IntRange 30 60" 30 60] by auto
  obtain p r3 where p: "number_int (IntMax 100) r2 = Inr (p, r3)" "in_range 0 100 (js_num p)"
    using int_contract_call [OF assms, of "IntMax 100" 0 100] by auto
  obtain a r4 where a: "number_int (IntMax 10) r3 = Inr (a, r4)" "in_range 0 10 (js_num a)"
    using int_contract_call [OF assms, of "IntMax 10" 0 10] by auto
  obtain c r5 where c: "number_int (IntMax 10) r4 = Inr (c, r5)" "in_range 0 10 (js_num c)"
    using int_contract_call [OF assms, of "IntMax 10" 0 10] by auto
  obtain v r6 where v: "number_int (IntMax 12) r5 = Inr (v, r6)" "in_range 0 12 (js_num v)"
    using int_contract_call [OF assms, of "IntMax 12" 0 12] by auto
  show ?thesis
    using t h p a c v by (simp add: generateSensorData_def)
qed

theorem generateSensorData_bounds_witness:
  "int_contract faker_min \<and>
   generateSensorData faker_min (Finite 7 0) 1700000000000 () =
     Inr (\<lparr>sd_kiosk = Finite 7 0, sd_time = 1700000000000, sd_temperature = Finite 0 0,
            sd_humidity = Finite 30 0, sd_pressure = Finite 0 0, sd_air_quality = Finite 0 0,
            sd_current = Finite 0 0, sd_voltage = Finite 0 0\<rparr>, ()) \<and>
   (\<exists>d r'. generateSensorData faker_min (Finite 7 0) 1700000000000 () = Inr (d, r') \<and>
      in_range 30 60 (sd_humidity d))"
proof -
  have ev: "generateSensorData faker_min (Finite 7 0) 1700000000000 () =
     Inr (\<lparr>sd_kiosk = Finite 7 0, sd_time = 1700000000000, sd_temperature = Finite 0 0,
            sd_humidity = Finite 30 0, sd_pressure = Finite 0 0, sd_air_quality = Finite 0 0,
            sd_current = Finite 0 0, sd_voltage = Finite 0 0\<rparr>, ())"
    by (simp add: generateSensorData_def faker_min_def js_num_def)
  show ?thesis
    using generateSensorData_bounds [OF int_contract_faker_min, of "Finite 7 0" 1700000000000 "()"]
      ev int_contract_faker_min by blast
qed

end
