(* ===== verification/Faker.thy ===== *)
theory Faker
  imports SensorData
begin

text \<open>
  A model of \<open>faker.number.int\<close> as faker 9 implements it, to instantiate the parameter of
  \<open>generateSensorData\<close>. The randomizer's \<open>next()\<close> returns \<open>w / 2^53\<close> for a 53-bit
  draw \<open>w\<close> (the default Mersenne-Twister randomizer's \<open>genrandRes53\<close>; the 32-bit one
  yields the draws whose low 21 bits are zero). The result is
  \<open>Math.floor(real * delta + min)\<close> computed in IEEE-754 doubles, with
  \<open>delta = max - min + 1\<close>: each of the two operations rounds to the nearest double,
  ties to even, written out below on dyadic rationals \<open>N \<cdot> 2^-q\<close>. Values stay far
  above the subnormal range and below overflow, so only the 53-bit rounding matters.
\<close>

text \<open>The randomizer's future draws: \<open>rs i\<close> is the \<open>i\<close>-th next 53-bit draw.\<close>

type_synonym randomizer = "nat \<Rightarrow> 53 word"

fun bitlen :: "nat \<Rightarrow> nat" where
  "bitlen n = (if n = 0 then 0 else Suc (bitlen (n div 2)))"

text \<open>\<open>n / 2^s\<close> rounded to the nearest integer, ties to even.\<close>

definition round_half_even :: "nat \<Rightarrow> nat \<Rightarrow> nat" where
  "round_half_even n s = (let q = n div 2 ^ s; r = n mod 2 ^ s in
     if 2 ^ s < 2 * r \<or> (2 * r = 2 ^ s \<and> odd q) then q + 1 else q)"

text \<open>The double nearest to \<open>N \<cdot> 2^-q\<close>: at most 53 significant bits.\<close>

definition round_double :: "int \<Rightarrow> int \<Rightarrow> int \<times> int" where
  "round_double N q = (let a = nat \<bar>N\<bar>; b = bitlen a in
     if b \<le> 53 then (N, q)
     else (sgn N * int (round_half_even a (b - 53)), q - int (b - 53)))"

definition dyadic_add_int :: "int \<times> int \<Rightarrow> int \<Rightarrow> int \<times> int" where
  "dyadic_add_int x k = (case x of (N, q) \<Rightarrow>
     if 0 \<le> q then (N + k * 2 ^ nat q, q) else (N * 2 ^ nat (- q) + k, 0))"

definition dyadic_floor :: "int \<times> int \<Rightarrow> int" where
  "dyadic_floor x = (case x of (N, q) \<Rightarrow> if 0 \<le> q then N div 2 ^ nat q else N * 2 ^ nat (- q))"

text \<open>\<open>randomizer.next()\<close>: the fraction \<open>w / 2^53\<close> of the next draw.\<close>

definition next_real :: "randomizer \<Rightarrow> (int \<times> int) \<times> randomizer" where
  "next_real rs = ((int (unat (rs 0)), 53), (\<lambda>i. rs (Suc i)))"

text \<open>
  \<open>number.int\<close> with \<open>multipleOf = 1\<close>: equal bounds return without drawing; \<open>max < min\<close>
  throws; otherwise one draw, then \<open>Math.floor(real * delta + min)\<close>.
\<close>

definition number_int :: "randomizer faker_int" where
  "number_int opts rs = (case opts_range opts of (lo, hi) \<Rightarrow>
     if lo = hi then Inr (lo, rs)
     else if hi < lo then Inl (MaxBelowMin hi lo)
     else (case next_real rs of ((w, e), rs') \<Rightarrow>
             let delta = hi - lo + 1;
                 prod = round_double (w * delta) e;
                 sum = (case dyadic_add_int prod lo of (N, q) \<Rightarrow> round_double N q)
             in Inr (dyadic_floor sum, rs')))"

text \<open>
  The reference for rounding to an integer: IEEE-754 \<open>roundTiesToEven\<close> picks a \<open>k\<close> with
  \<open>|n / 2^s - k| < 1/2\<close>, or \<open>= 1/2\<close> with \<open>k\<close> even.
\<close>

definition rne_spec :: "nat \<Rightarrow> nat \<Rightarrow> nat \<Rightarrow> bool" where
  "rne_spec n s k \<longleftrightarrow> (let d = \<bar>int n - int k * 2 ^ s\<bar> in 2 * d < 2 ^ s \<or> (2 * d = 2 ^ s \<and> even k))"

text \<open>The integer \<open>number.int(opts)\<close> returns when its draw is \<open>w\<close>.\<close>

definition reading :: "int_options \<Rightarrow> 53 word \<Rightarrow> int" where
  "reading opts w = (case number_int opts (\<lambda>_. w) of Inr (n, _) \<Rightarrow> n | Inl _ \<Rightarrow> 0)"

subsection \<open>Bit length and rounding\<close>

declare bitlen.simps [simp del]

lemma bitlen_0 [simp]: "bitlen 0 = 0"
  by (simp add: bitlen.simps)

lemma bitlen_pos: "0 < n \<Longrightarrow> bitlen n = Suc (bitlen (n div 2))"
  by (simp add: bitlen.simps)

lemma bitlen_less: "n < 2 ^ bitlen n"
proof (induction n rule: bitlen.induct)
  case (1 n)
  show ?case
  proof (cases "n = 0")
    case False
    then have "n div 2 < 2 ^ bitlen (n div 2)" using "1.IH" by simp
    then show ?thesis using False by (simp add: bitlen_pos)
  qed simp
qed

lemma bitlen_ge: "0 < n \<Longrightarrow> 2 ^ (bitlen n - 1) \<le> n"
proof (induction n rule: bitlen.induct)
  case (1 n)
  show ?case
  proof (cases "n div 2 = 0")
    case True
    then show ?thesis using "1.prems" by (simp add: bitlen_pos)
  next
    case False
    then have "2 ^ (bitlen (n div 2) - 1) \<le> n div 2" using "1.IH" "1.prems" by simp
    have "0 < bitlen (n div 2)" using False by (simp add: bitlen_pos)
    have "bitlen n - 1 = bitlen (n div 2)" using "1.prems" by (simp add: bitlen_pos)
    then have "(2::nat) ^ (bitlen n - 1) = 2 * 2 ^ (bitlen (n div 2) - 1)"
      using \<open>0 < bitlen (n div 2)\<close> by (metis Suc_diff_1 power_Suc)
    also have "\<dots> \<le> 2 * (n div 2)" using \<open>2 ^ (bitlen (n div 2) - 1) \<le> n div 2\<close> by simp
    also have "\<dots> \<le> n" by simp
    finally show ?thesis .
  qed
qed

lemma bitlen_le_iff: "bitlen n \<le> k \<longleftrightarrow> n < 2 ^ k"
proof
  assume "bitlen n \<le> k"
  then have "(2::nat) ^ bitlen n \<le> 2 ^ k" by (intro power_increasing) simp_all
  then show "n < 2 ^ k" using bitlen_less[of n] by (rule order.strict_trans2[rotated])
next
  assume less: "n < 2 ^ k"
  show "bitlen n \<le> k"
  proof (rule ccontr)
    assume "\<not> bitlen n \<le> k"
    then have "0 < n" by (cases "n = 0") simp_all
    then have "2 ^ (bitlen n - 1) \<le> n" by (rule bitlen_ge)
    moreover have "2 ^ k \<le> (2::nat) ^ (bitlen n - 1)"
      using \<open>\<not> bitlen n \<le> k\<close> by (intro power_increasing) simp_all
    ultimately show False using less by linarith
  qed
qed

lemma near_cases:
  fixes q r k P :: int
  assumes "0 \<le> r" "r < P" "2 * \<bar>q * P + r - k * P\<bar> \<le> P"
  shows "k = q \<or> k = q + 1"
proof (rule ccontr)
  assume "\<not> (k = q \<or> k = q + 1)"
  then consider "k + 1 \<le> q" | "q + 2 \<le> k" by linarith
  then show False
  proof cases
    case 1
    then have "P \<le> (q - k) * P" using assms(1,2) by (simp add: mult_right_mono)
    then show False using assms by (simp add: algebra_simps abs_if split: if_splits)
  next
    case 2
    then have "2 * P \<le> (k - q) * P" using assms(1,2) by (simp add: mult_right_mono)
    then show False using assms by (simp add: algebra_simps abs_if split: if_splits)
  qed
qed

lemma rhe_div_mod: "int n = int (n div 2 ^ s) * 2 ^ s + int (n mod 2 ^ s)"
proof -
  have "int n = int (n div 2 ^ s * 2 ^ s + n mod 2 ^ s)" by (simp only: div_mult_mod_eq)
  then show ?thesis by (simp only: of_nat_add of_nat_mult of_nat_power of_nat_numeral)
qed

lemma rhe_mod_less: "int (n mod 2 ^ s) < 2 ^ s"
proof -
  have "n mod 2 ^ s < (2::nat) ^ s" by simp
  then have "int (n mod 2 ^ s) < int (2 ^ s)" by (simp only: of_nat_less_iff)
  then show ?thesis by simp
qed

lemma rhe_dist_div: "\<bar>int n - int (n div 2 ^ s) * 2 ^ s\<bar> = int (n mod 2 ^ s)"
  using rhe_div_mod[of n s] by simp

lemma rhe_dist_div_Suc: "\<bar>int n - int (n div 2 ^ s + 1) * 2 ^ s\<bar> = 2 ^ s - int (n mod 2 ^ s)"
  using rhe_div_mod[of n s] rhe_mod_less[of n s] by (simp add: algebra_simps)

lemma round_half_even_int:
  "round_half_even n s = (if 2 ^ s < 2 * int (n mod 2 ^ s) \<or>
       (2 * int (n mod 2 ^ s) = 2 ^ s \<and> odd (n div 2 ^ s)) then n div 2 ^ s + 1 else n div 2 ^ s)"
proof -
  have "((2::int) ^ s < 2 * int (n mod 2 ^ s)) = (int (2 ^ s) < int (2 * (n mod 2 ^ s)))" by simp
  then have c1: "((2::int) ^ s < 2 * int (n mod 2 ^ s)) = ((2::nat) ^ s < 2 * (n mod 2 ^ s))"
    by (simp only: of_nat_less_iff)
  have "(2 * int (n mod 2 ^ s) = 2 ^ s) = (int (2 * (n mod 2 ^ s)) = int (2 ^ s))" by simp
  then have c2: "(2 * int (n mod 2 ^ s) = 2 ^ s) = (2 * (n mod 2 ^ s) = (2::nat) ^ s)"
    by (simp only: of_nat_eq_iff)
  show ?thesis unfolding c1 c2 by (simp add: round_half_even_def Let_def)
qed

lemma round_half_even_near: "2 * \<bar>int n - int (round_half_even n s) * 2 ^ s\<bar> \<le> 2 ^ s"
  using rhe_dist_div[of n s] rhe_dist_div_Suc[of n s] rhe_mod_less[of n s]
  unfolding round_half_even_int by auto

subsection \<open>Rounding bounds\<close>

lemma rhe_near_bounds:
  "2 * int n \<le> 2 ^ s + 2 * (int (round_half_even n s) * 2 ^ s)"
  "2 * (int (round_half_even n s) * 2 ^ s) \<le> 2 ^ s + 2 * int n"
  using round_half_even_near[of n s] by (simp_all add: abs_if split: if_splits)

lemma round_half_even_le:
  assumes "n \<le> K * 2 ^ s" shows "round_half_even n s \<le> K"
proof (rule ccontr)
  let ?k = "round_half_even n s"
  assume "\<not> ?k \<le> K"
  then have "int K + 1 \<le> int ?k" by simp
  then have "(int K + 1) * 2 ^ s \<le> int ?k * 2 ^ s" by (rule mult_right_mono) simp
  then have "int K * 2 ^ s + 2 ^ s \<le> int ?k * 2 ^ s" by (simp add: distrib_right)
  moreover have "int n \<le> int (K * 2 ^ s)" using assms by (simp only: of_nat_le_iff)
  then have "int n \<le> int K * 2 ^ s" by simp
  moreover have "(0::int) < 2 ^ s" by simp
  ultimately show False using rhe_near_bounds(2)[of n s] by linarith
qed

lemma round_half_even_less:
  assumes "2 ^ s + 2 * n < 2 * (K * 2 ^ s)" shows "round_half_even n s < K"
proof (rule ccontr)
  let ?k = "round_half_even n s"
  assume "\<not> ?k < K"
  then have "int K \<le> int ?k" by simp
  then have "int K * 2 ^ s \<le> int ?k * 2 ^ s" by (rule mult_right_mono) simp
  moreover have "int (2 ^ s + 2 * n) < int (2 * (K * 2 ^ s))" using assms by (simp only: of_nat_less_iff)
  then have "2 ^ s + 2 * int n < 2 * (int K * 2 ^ s)" by simp
  ultimately show False using rhe_near_bounds(2)[of n s] by linarith
qed

lemma round_half_even_ge:
  assumes "K * 2 ^ s \<le> n" shows "K \<le> round_half_even n s"
proof (rule ccontr)
  let ?k = "round_half_even n s"
  assume "\<not> K \<le> ?k"
  then have "int ?k + 1 \<le> int K" by simp
  then have "(int ?k + 1) * 2 ^ s \<le> int K * 2 ^ s" by (rule mult_right_mono) simp
  then have "int ?k * 2 ^ s + 2 ^ s \<le> int K * 2 ^ s" by (simp add: distrib_right)
  moreover have "int (K * 2 ^ s) \<le> int n" using assms by (simp only: of_nat_le_iff)
  then have "int K * 2 ^ s \<le> int n" by simp
  moreover have "(0::int) < 2 ^ s" by simp
  ultimately show False using rhe_near_bounds(1)[of n s] by linarith
qed


lemma round_double_nat:
  "round_double (int n) q = (if n < 2 ^ 53 then (int n, q)
     else (int (round_half_even n (bitlen n - 53)), q - int (bitlen n - 53)))"
proof (cases "n < 2 ^ 53")
  case True
  then show ?thesis using bitlen_le_iff[of n 53] by (simp add: round_double_def Let_def)
next
  case False
  then have "0 < n" by (cases n) simp_all
  then show ?thesis using False bitlen_le_iff[of n 53] by (simp add: round_double_def Let_def)
qed

lemma bitlen_shift:
  assumes "\<not> n < 2 ^ 53" "n < 2 ^ 53 * 2 ^ k"
  shows "bitlen n - 53 \<le> k" "n < 2 ^ 53 * 2 ^ (bitlen n - 53)"
proof -
  have "n < 2 ^ (53 + k)" using assms(2) by (simp add: power_add)
  then have "bitlen n \<le> 53 + k" by (simp only: bitlen_le_iff)
  then show "bitlen n - 53 \<le> k" by simp
  have "\<not> bitlen n \<le> 53" using assms(1) by (simp only: bitlen_le_iff) simp
  then have e: "53 + (bitlen n - 53) = bitlen n" by simp
  have "2 ^ 53 * 2 ^ (bitlen n - 53) = (2::nat) ^ bitlen n" by (simp only: power_add [symmetric] e)
  then show "n < 2 ^ 53 * 2 ^ (bitlen n - 53)" using bitlen_less[of n] by simp
qed

lemma pow_split: "s \<le> k \<Longrightarrow> K * 2 ^ (k - s) * 2 ^ s = K * (2::nat) ^ k"
  by (simp add: mult.assoc flip: power_add)

lemma int_div_pow: "int n div 2 ^ k = int (n div 2 ^ k)"
  by (simp add: zdiv_int)

lemma round_double_floor_le:
  assumes "n \<le> K * 2 ^ k" "n < 2 ^ 53 * 2 ^ k"
  shows "dyadic_floor (round_double (int n) (int k)) \<le> int K"
proof (cases "n < 2 ^ 53")
  case True
  have "n div 2 ^ k \<le> K" using div_le_mono[OF assms(1), of "2 ^ k"] by simp
  then show ?thesis using True by (simp add: round_double_nat dyadic_floor_def int_div_pow)
next
  case False
  define s where "s = bitlen n - 53"
  have sk: "s \<le> k" using bitlen_shift[OF False assms(2)] by (simp add: s_def)
  have "n \<le> (K * 2 ^ (k - s)) * 2 ^ s" using assms(1) sk by (simp only: pow_split)
  then have "round_half_even n s \<le> K * 2 ^ (k - s)" by (rule round_half_even_le)
  then have "round_half_even n s div 2 ^ (k - s) \<le> K * 2 ^ (k - s) div 2 ^ (k - s)"
    by (rule div_le_mono)
  then have "round_half_even n s div 2 ^ (k - s) \<le> K" by simp
  moreover have "round_double (int n) (int k) = (int (round_half_even n s), int (k - s))"
    using False sk by (simp add: round_double_nat s_def [symmetric] of_nat_diff)
  ultimately show ?thesis by (simp add: dyadic_floor_def int_div_pow)
qed


lemma round_double_floor_ge:
  assumes "K * 2 ^ k \<le> n" "n < 2 ^ 53 * 2 ^ k"
  shows "int K \<le> dyadic_floor (round_double (int n) (int k))"
proof (cases "n < 2 ^ 53")
  case True
  have "K * 2 ^ k div 2 ^ k \<le> n div 2 ^ k" using assms(1) by (rule div_le_mono)
  then have "K \<le> n div 2 ^ k" by simp
  then show ?thesis using True by (simp add: round_double_nat dyadic_floor_def int_div_pow)
next
  case False
  define s where "s = bitlen n - 53"
  have sk: "s \<le> k" using bitlen_shift[OF False assms(2)] by (simp add: s_def)
  have "(K * 2 ^ (k - s)) * 2 ^ s \<le> n" using assms(1) sk by (simp only: pow_split)
  then have "K * 2 ^ (k - s) \<le> round_half_even n s" by (rule round_half_even_ge)
  then have "K * 2 ^ (k - s) div 2 ^ (k - s) \<le> round_half_even n s div 2 ^ (k - s)"
    by (rule div_le_mono)
  then have "K \<le> round_half_even n s div 2 ^ (k - s)" by simp
  moreover have "round_double (int n) (int k) = (int (round_half_even n s), int (k - s))"
    using False sk by (simp add: round_double_nat s_def [symmetric] of_nat_diff)
  ultimately show ?thesis by (simp add: dyadic_floor_def int_div_pow)
qed

text \<open>\<open>real * delta\<close> rounds to a double below \<open>delta\<close>, with at most 53 bits.\<close>

lemma round_double_first:
  assumes "w < 2 ^ 53" "0 < d" "d \<le> 2 ^ 53"
  obtains M k where "round_double (int (w * d)) 53 = (int M, int k)" "M < d * 2 ^ k" "M \<le> 2 ^ 53"
proof (cases "w * d < 2 ^ 53")
  case True
  have "w * d < d * 2 ^ 53" using assms(1,2) by simp
  moreover have "round_double (int (w * d)) 53 = (int (w * d), int 53)"
    using True round_double_nat[of "w * d" 53] by simp
  ultimately show ?thesis using that[of "w * d" 53] True by simp
next
  case False
  define s where "s = bitlen (w * d) - 53"
  have "w * d \<le> w * 2 ^ 53" using assms(3) by simp
  also have "\<dots> < 2 ^ 53 * 2 ^ 53" using assms(1) by simp
  finally have wd: "w * d < 2 ^ 53 * 2 ^ 53" .
  have s53: "s \<le> 53" using bitlen_shift(1)[OF False wd] by (simp add: s_def)
  have lt: "w * d < 2 ^ 53 * 2 ^ s" using bitlen_shift(2)[OF False wd] by (simp add: s_def)
  have M: "round_half_even (w * d) s \<le> 2 ^ 53" using lt by (intro round_half_even_le) simp
  have "0 < w * d" using False by (cases "w * d") simp_all
  then have "2 ^ (bitlen (w * d) - 1) \<le> w * d" by (rule bitlen_ge)
  moreover have "bitlen (w * d) - 1 = s + 52" using False bitlen_le_iff[of "w * d" 53] by (simp add: s_def)
  ultimately have "2 ^ s * 2 ^ 52 \<le> w * d" by (simp add: power_add)
  moreover have "w * d \<le> (2 ^ 53 - 1) * d" using assms(1) by simp
  moreover have "(2 ^ 53 - 1) * d < (2 * d) * 2 ^ 52" using assms(2) by simp
  ultimately have "2 ^ s * 2 ^ 52 < (2 * d) * 2 ^ 52" by linarith
  then have ps: "2 ^ s < 2 * d" by (simp only: mult_less_cancel2)
  have e: "(d * 2 ^ (53 - s)) * 2 ^ s = d * 2 ^ 53" using s53 by (rule pow_split)
  have "(2 ^ 53 - 1) * d + d = d * (2::nat) ^ 53" by (simp add: algebra_simps)
  then have "2 ^ s + 2 * (w * d) < 2 * ((d * 2 ^ (53 - s)) * 2 ^ s)"
    using ps \<open>w * d \<le> (2 ^ 53 - 1) * d\<close> unfolding e by linarith
  then have "round_half_even (w * d) s < d * 2 ^ (53 - s)" by (rule round_half_even_less)
  moreover have "round_double (int (w * d)) 53 = (int (round_half_even (w * d) s), int (53 - s))"
    using False s53 round_double_nat[of "w * d" 53] by (simp add: s_def [symmetric] of_nat_diff)
  ultimately show ?thesis using that M by blast
qed


lemma dyadic_floor_double: "dyadic_floor (2 * N, q + 1) = dyadic_floor (N, q)"
proof (cases "0 \<le> q")
  case True
  then have "nat (q + 1) = Suc (nat q)" by simp
  then show ?thesis using True by (simp add: dyadic_floor_def zdiv_zmult2_eq)
next
  case False
  then show ?thesis
  proof (cases "q = -1")
    case False
    with \<open>\<not> 0 \<le> q\<close> have "nat (- q) = Suc (nat (- (q + 1)))" by simp
    then show ?thesis using \<open>\<not> 0 \<le> q\<close> False by (simp add: dyadic_floor_def)
  qed (simp add: dyadic_floor_def)
qed

text \<open>The second rounding, of a value that is already a double, keeps its floor.\<close>

lemma round_double_again:
  assumes "M \<le> 2 ^ 53"
  shows "dyadic_floor (round_double (int M) q) = dyadic_floor (int M, q)"
proof (cases "M < 2 ^ 53")
  case True
  then show ?thesis by (simp add: round_double_nat)
next
  case False
  then have M: "M = 2 ^ 53" using assms by simp
  have "bitlen M \<le> 54" unfolding M by (simp only: bitlen_le_iff) simp
  moreover have "\<not> bitlen M \<le> 53" unfolding M by (simp only: bitlen_le_iff)
  ultimately have b: "bitlen M - 53 = 1" by simp
  have "round_double (int M) q = (int (round_half_even M (bitlen M - 53)), q - int (bitlen M - 53))"
    using False by (simp only: round_double_nat if_False)
  also have "\<dots> = (2 ^ 52, q - 1)" unfolding b by (simp add: M round_half_even_def)
  finally have "round_double (int M) q = (2 ^ 52, q - 1)" .
  moreover have "dyadic_floor (2 * 2 ^ 52, (q - 1) + 1) = dyadic_floor (2 ^ 52, q - 1)"
    by (rule dyadic_floor_double)
  ultimately show ?thesis by (simp add: M)
qed

lemma number_int_reading:
  assumes "opts_range opts = (lo, hi)" "lo < hi"
  shows "number_int opts rs = Inr (reading opts (rs 0), \<lambda>i. rs (Suc i))"
  using assms by (simp add: number_int_def next_real_def reading_def Let_def)

lemma unat_draw: "unat (x :: 53 word) < 2 ^ 53"
  using unsigned_less[of x] by simp

lemma number_int_draw:
  assumes "opts_range opts = (lo, hi)" "lo < hi" "hi - lo + 1 \<le> 2 ^ 53"
  obtains M k where
    "number_int opts rs =
       Inr (dyadic_floor (round_double (int M + lo * 2 ^ k) (int k)), \<lambda>i. rs (Suc i))"
    "int M < (hi - lo + 1) * 2 ^ k" "M \<le> 2 ^ 53"
proof -
  define d where "d = nat (hi - lo + 1)"
  have d: "0 < d" "d \<le> 2 ^ 53" "int d = hi - lo + 1" using assms(2,3) by (simp_all add: d_def nat_le_iff)
  obtain M k where rd: "round_double (int (unat (rs 0) * d)) 53 = (int M, int k)"
    and Md: "M < d * 2 ^ k" and M: "M \<le> 2 ^ 53"
    using round_double_first[OF unat_draw d(1,2)] by blast
  have "round_double (int (unat (rs 0)) * (hi - lo + 1)) 53 = (int M, int k)"
    using rd by (simp add: d(3) [symmetric])
  then have "number_int opts rs =
       Inr (dyadic_floor (round_double (int M + lo * 2 ^ k) (int k)), \<lambda>i. rs (Suc i))"
    using assms(1,2) by (simp add: number_int_def next_real_def Let_def dyadic_add_int_def)
  moreover have "int M < (hi - lo + 1) * 2 ^ k"
    using Md by (simp flip: d(3)) (metis of_nat_less_iff of_nat_mult of_nat_numeral of_nat_power)
  ultimately show ?thesis using that M by blast
qed



subsection \<open>\<open>number.int\<close> on one draw\<close>
lemma number_int_max_bounds:
  assumes "0 < hi" "hi < 2 ^ 53"
  shows "\<exists>n. number_int (IntMax hi) rs = Inr (n, \<lambda>i. rs (Suc i)) \<and> 0 \<le> n \<and> n \<le> hi"
proof -
  have o: "opts_range (IntMax hi) = (0, hi)" and lt: "0 < hi" and d: "hi - 0 + 1 \<le> 2 ^ 53"
    using assms by simp_all
  obtain M k where eq: "number_int (IntMax hi) rs =
       Inr (dyadic_floor (round_double (int M + 0 * 2 ^ k) (int k)), \<lambda>i. rs (Suc i))"
    and Mlt: "int M < (hi - 0 + 1) * 2 ^ k" and M: "M \<le> 2 ^ 53"
    by (rule number_int_draw[OF o lt d])
  have fl: "dyadic_floor (round_double (int M + 0 * 2 ^ k) (int k)) = int (M div 2 ^ k)"
    using round_double_again[OF M, of "int k"] by (simp add: dyadic_floor_def int_div_pow)
  have "int M < int (nat (hi + 1) * 2 ^ k)" using Mlt assms(1) by simp
  then have "M < nat (hi + 1) * 2 ^ k" by (simp only: of_nat_less_iff)
  then have "M div 2 ^ k < nat (hi + 1)" by (simp add: div_less_iff_less_mult)
  then have "int (M div 2 ^ k) \<le> hi" by linarith
  then show ?thesis using eq fl by simp
qed


lemma number_int_range_bounds:
  assumes "0 \<le> lo" "lo < hi" "hi + 1 < 2 ^ 53"
  shows "\<exists>n. number_int (IntRange lo hi) rs = Inr (n, \<lambda>i. rs (Suc i)) \<and> lo \<le> n \<and> n \<le> hi + 1"
proof -
  have o: "opts_range (IntRange lo hi) = (lo, hi)" and d: "hi - lo + 1 \<le> 2 ^ 53"
    using assms by simp_all
  obtain M k where eq: "number_int (IntRange lo hi) rs =
       Inr (dyadic_floor (round_double (int M + lo * 2 ^ k) (int k)), \<lambda>i. rs (Suc i))"
    and Mlt: "int M < (hi - lo + 1) * 2 ^ k"
    by (rule number_int_draw[OF o assms(2) d])
  define N where "N = M + nat lo * 2 ^ k"
  have N: "int M + lo * 2 ^ k = int N" using assms(1) by (simp add: N_def)
  have "int N \<le> (hi + 1) * 2 ^ k" using Mlt N by (simp add: algebra_simps)
  also have "\<dots> = int (nat (hi + 1) * 2 ^ k)" using assms(1,2) by simp
  finally have up: "N \<le> nat (hi + 1) * 2 ^ k" by (simp only: of_nat_le_iff)
  have "nat (hi + 1) * 2 ^ k < 2 ^ 53 * 2 ^ k" using assms(1,2,3) by simp
  with up have lt: "N < 2 ^ 53 * 2 ^ k" by linarith
  have low: "nat lo * 2 ^ k \<le> N" by (simp add: N_def)
  have "dyadic_floor (round_double (int N) (int k)) \<le> int (nat (hi + 1))"
    by (rule round_double_floor_le[OF up lt])
  moreover have "int (nat lo) \<le> dyadic_floor (round_double (int N) (int k))"
    by (rule round_double_floor_ge[OF low lt])
  ultimately show ?thesis using eq N assms(1,2) by simp
qed



text \<open>The largest 53-bit draw, \<open>2^53 - 1\<close>, with \<open>{min: 30, max: 60}\<close>.\<close>

lemmas number_int_eval = number_int_def next_real_def unsigned_minus_1_eq_mask mask_eq_exp_minus_1
  round_double_def round_half_even_def Let_def dyadic_add_int_def dyadic_floor_def bitlen.simps

lemma number_int_top_draw: "number_int (IntRange 30 60) (\<lambda>_. - 1) = Inr (61, \<lambda>_. - 1)"
  by (simp add: number_int_eval)

subsection \<open>The humidity reading\<close>

text \<open>
  For \<open>IntRange 30 60\<close> every draw below \<open>2^53 - 1\<close> gives at most 60: the first
  rounding leaves \<open>real * 31\<close> at most \<open>31 - 46 / 2^53\<close>, half a unit of the last place
  above the exact product, and the sum with 30 is then more than half a unit below 61.
\<close>

lemma rhe_upper: "2 * (round_half_even n s * 2 ^ s) \<le> 2 * n + 2 ^ s"
proof -
  have "2 * \<bar>int n - int (round_half_even n s) * 2 ^ s\<bar> \<le> 2 ^ s" by (rule round_half_even_near)
  moreover have "int (round_half_even n s) * 2 ^ s - int n \<le> \<bar>int n - int (round_half_even n s) * 2 ^ s\<bar>"
    by linarith
  ultimately have "2 * int (round_half_even n s * 2 ^ s) \<le> 2 * int n + 2 ^ s" by simp
  then have "int (2 * (round_half_even n s * 2 ^ s)) \<le> int (2 * n + 2 ^ s)" by simp
  then show ?thesis by (simp only: of_nat_le_iff)
qed

text \<open>Below the largest draw, \<open>real * 31\<close> rounds to at most \<open>31 - 46 / 2^53\<close>.\<close>

lemma humidity_first:
  assumes "u \<le> 2 ^ 53 - 2"
  obtains M k where "round_double (int (u * 31)) 53 = (int M, int k)" "k \<le> 53"
    "M * 2 ^ 53 \<le> (31 * 2 ^ 53 - 46) * 2 ^ k"
proof (cases "u * 31 < 2 ^ 53")
  case True
  have "u * 31 \<le> 31 * 2 ^ 53 - 46" using assms by simp
  then have "u * 31 * 2 ^ 53 \<le> (31 * 2 ^ 53 - 46) * 2 ^ 53" by (rule mult_right_mono) simp
  then show ?thesis using that[of "u * 31" 53] True round_double_nat[of "u * 31" 53] by simp
next
  case False
  define s where "s = bitlen (u * 31) - 53"
  have lt: "u * 31 < 2 ^ 53 * 2 ^ 5" using assms by simp
  have s5: "s \<le> 5" using bitlen_shift(1)[OF False lt] by (simp add: s_def)
  define M where "M = round_half_even (u * 31) s"
  have rd: "round_double (int (u * 31)) 53 = (int M, int (53 - s))"
    using False s5 round_double_nat[of "u * 31" 53] by (simp add: s_def [symmetric] M_def of_nat_diff)
  have "2 * (M * 2 ^ s) \<le> 2 * (u * 31) + 2 ^ s" unfolding M_def by (rule rhe_upper)
  moreover have "(2::nat) ^ s \<le> 2 ^ 5" using s5 by (rule power_increasing) simp
  ultimately have "M * 2 ^ s \<le> 31 * 2 ^ 53 - 46" using assms by simp
  then have "M * 2 ^ s * 2 ^ (53 - s) \<le> (31 * 2 ^ 53 - 46) * 2 ^ (53 - s)" by (rule mult_right_mono) simp
  then have "M * 2 ^ 53 \<le> (31 * 2 ^ 53 - 46) * 2 ^ (53 - s)"
    using s5 by (simp add: mult.assoc flip: power_add)
  then show ?thesis using that rd by simp
qed

lemma pow_53_shift: "47 \<le> k \<Longrightarrow> (2::nat) ^ (k - 47) * 2 ^ 53 = 64 * 2 ^ k"
proof -
  assume "47 \<le> k"
  then have e: "k - 47 + 47 = k" by simp
  have "(2::nat) ^ (k - 47) * 2 ^ 47 = 2 ^ (k - 47 + 47)" by (simp only: power_add)
  then have "(2::nat) ^ (k - 47) * 2 ^ 47 = 2 ^ k" by (simp only: e)
  then show ?thesis by simp
qed

text \<open>Adding 30 to a value at most \<open>31 - 46 / 2^53\<close> and rounding stays below 61.\<close>

lemma humidity_second:
  assumes "N * 2 ^ 53 \<le> (61 * 2 ^ 53 - 46) * 2 ^ k"
  shows "dyadic_floor (round_double (int N) (int k)) \<le> 60"
proof -
  have X: "(0::nat) < 2 ^ k" by simp
  have "(61 * 2 ^ 53 - 46) * (2::nat) ^ k < 61 * 2 ^ k * 2 ^ 53" using X by simp
  with assms have "N * 2 ^ 53 < 61 * 2 ^ k * 2 ^ 53" by (rule le_less_trans)
  then have N61: "N < 61 * 2 ^ k" by (simp only: mult_less_cancel2)
  show ?thesis
  proof (cases "N < 2 ^ 53")
    case True
    have "N div 2 ^ k < 61" using N61 by (simp add: less_mult_imp_div_less)
    then show ?thesis using True by (simp add: round_double_nat dyadic_floor_def int_div_pow)
  next
    case False
    have k47: "47 \<le> k"
    proof (rule ccontr)
      assume "\<not> 47 \<le> k"
      then have "(2::nat) ^ k \<le> 2 ^ 46" by (intro power_increasing) simp_all
      then show False using N61 False by simp
    qed
    have "(2::nat) ^ 53 * 2 ^ (k - 47) = 64 * 2 ^ k" using pow_53_shift[OF k47] by (simp only: mult.commute)
    then have Nlt: "N < 2 ^ 53 * 2 ^ (k - 47)" using N61 by simp
    define s where "s = bitlen N - 53"
    have sk: "s \<le> k - 47" using bitlen_shift(1)[OF False Nlt] by (simp add: s_def)
    have "(2::nat) ^ s * 2 ^ 53 \<le> 2 ^ (k - 47) * 2 ^ 53" using sk by (intro mult_right_mono power_increasing) simp_all
    also have "\<dots> = 64 * 2 ^ k" using k47 by (rule pow_53_shift)
    finally have f3: "(2::nat) ^ s * 2 ^ 53 \<le> 64 * 2 ^ k" .
    define a where "a = round_half_even N s"
    have "2 * (a * 2 ^ s) \<le> 2 * N + 2 ^ s" unfolding a_def by (rule rhe_upper)
    then have "2 * (a * 2 ^ s) * 2 ^ 53 \<le> (2 * N + 2 ^ s) * 2 ^ 53" by (rule mult_right_mono) simp
    then have "2 * 2 ^ 53 * (a * 2 ^ s) \<le> 2 * 2 ^ 53 * N + 2 ^ s * 2 ^ 53" by (simp add: algebra_simps)
    then have "a * 2 ^ s < 61 * 2 ^ k"
      using assms f3 by simp (insert X, linarith)
    also have "61 * (2::nat) ^ k = 61 * 2 ^ (k - s) * 2 ^ s" using sk by (simp add: pow_split)
    finally have "a < 61 * 2 ^ (k - s)" by simp
    then have "a div 2 ^ (k - s) < 61" by (simp add: less_mult_imp_div_less)
    moreover have "round_double (int N) (int k) = (int a, int (k - s))"
      using False sk by (simp add: round_double_nat s_def [symmetric] a_def of_nat_diff)
    ultimately show ?thesis by (simp add: dyadic_floor_def int_div_pow)
  qed
qed

lemma reading_humidity_below:
  assumes "unat w \<le> 2 ^ 53 - 2"
  shows "reading (IntRange 30 60) w \<le> 60"
proof -
  obtain M k where rd: "round_double (int (unat w * 31)) 53 = (int M, int k)"
      and Mk: "M * 2 ^ 53 \<le> (31 * 2 ^ 53 - 46) * 2 ^ k"
    using humidity_first[OF assms] by blast
  have "(M + 30 * 2 ^ k) * 2 ^ 53 \<le> (61 * 2 ^ 53 - 46) * 2 ^ k"
    using Mk by (simp add: algebra_simps)
  then have "dyadic_floor (round_double (int (M + 30 * 2 ^ k)) (int k)) \<le> 60"
    by (rule humidity_second)
  moreover have "round_double (int (unat w) * 31) 53 = (int M, int k)" using rd by simp
  ultimately show ?thesis
    by (simp add: reading_def number_int_def next_real_def Let_def dyadic_add_int_def)
qed

lemma reading_humidity: "reading (IntRange 30 60) w = 61 \<longleftrightarrow> w = - 1"
proof
  assume h: "reading (IntRange 30 60) w = 61"
  show "w = - 1"
  proof (rule ccontr)
    assume "w \<noteq> - 1"
    then have "unat w \<noteq> unat (- 1 :: 53 word)" by (simp only: word_unat_eq_iff) simp
    then have "unat w \<le> 2 ^ 53 - 2" using unat_draw[of w] by (simp add: unsigned_minus_1_eq_mask mask_eq_exp_minus_1)
    then show False using reading_humidity_below h by fastforce
  qed
next
  assume "w = - 1"
  then show "reading (IntRange 30 60) w = 61" using number_int_top_draw by (simp add: reading_def)
qed

text \<open>
  With faker's \<open>number.int\<close> the six calls of \<open>generateSensorData\<close> read the six
  draws in the order of the object literal.
\<close>

lemma generateSensorData_readings:
  "generateSensorData number_int kiosk_id now rs =
     Inr (\<lparr>sd_kiosk = kiosk_id, sd_time = now,
           sd_temperature = js_num (reading (IntMax 100) (rs 0)),
           sd_humidity = js_num (reading (IntRange 30 60) (rs 1)),
           sd_pressure = js_num (reading (IntMax 100) (rs 2)),
           sd_air_quality = js_num (reading (IntMax 10) (rs 3)),
           sd_current = js_num (reading (IntMax 10) (rs 4)),
           sd_voltage = js_num (reading (IntMax 12) (rs 5))\<rparr>, \<lambda>i. rs (i + 6))"
  by (simp add: generateSensorData_def number_int_reading eval_nat_numeral)

subsection \<open>Properties\<close>

text \<open>
  The integer rounding inside the double model is IEEE-754 round-to-nearest, ties to
  even: \<open>round_half_even n s\<close> is the one integer that the reference \<open>rne_spec\<close> admits
  as the rounding of \<open>n / 2^s\<close>.
\<close>

lemma round_half_even_spec: "rne_spec n s k \<longleftrightarrow> k = round_half_even n s"
proof
  assume spec: "rne_spec n s k"
  have r: "int (n mod 2 ^ s) < 2 ^ s" by (rule rhe_mod_less)
  note rhe_div_mod[of n s]
  then have "2 * \<bar>int (n div 2 ^ s) * 2 ^ s + int (n mod 2 ^ s) - int k * 2 ^ s\<bar> \<le> 2 ^ s"
    using spec unfolding rne_spec_def Let_def by auto
  then have "int k = int (n div 2 ^ s) \<or> int k = int (n div 2 ^ s) + 1"
    using near_cases[OF _ r, of "int (n div 2 ^ s)" "int k"] by simp
  then consider "k = n div 2 ^ s" | "k = n div 2 ^ s + 1" by linarith
  then show "k = round_half_even n s"
  proof cases
    case 1
    then show ?thesis using spec rhe_dist_div[of n s]
      unfolding rne_spec_def Let_def round_half_even_int by auto
  next
    case 2
    then show ?thesis using spec rhe_dist_div_Suc[of n s] r
      unfolding rne_spec_def Let_def round_half_even_int by auto
  qed
next
  assume k: "k = round_half_even n s"
  show "rne_spec n s k"
    using rhe_dist_div[of n s] rhe_dist_div_Suc[of n s] rhe_mod_less[of n s]
    unfolding rne_spec_def Let_def k round_half_even_int by auto
qed


text \<open>
  C15. With faker's \<open>number.int\<close> as modelled here, \<open>generateSensorData\<close> never throws,
  consumes exactly six draws of the randomizer, keeps the kiosk id and the clock reading,
  and keeps temperature and pressure in \<open>[0, 100]\<close>, air quality and current in
  \<open>[0, 10]\<close> and voltage in \<open>[0, 12]\<close>; humidity is in \<open>[30, 61]\<close>.
\<close>

theorem generateSensorData_faker:
  "\<exists>d. generateSensorData number_int kiosk_id now rs = Inr (d, \<lambda>i. rs (i + 6)) \<and>
     sd_kiosk d = kiosk_id \<and> sd_time d = now \<and>
     in_range 0 100 (sd_temperature d) \<and> in_range 30 61 (sd_humidity d) \<and>
     in_range 0 100 (sd_pressure d) \<and> in_range 0 10 (sd_air_quality d) \<and>
     in_range 0 10 (sd_current d) \<and> in_range 0 12 (sd_voltage d)"
proof -
  obtain t where t: "number_int (IntMax 100) rs = Inr (t, \<lambda>i. rs (Suc i))" "0 \<le> t" "t \<le> 100"
    using number_int_max_bounds[of 100 rs] by auto
  obtain h where h: "number_int (IntRange 30 60) (\<lambda>i. rs (Suc i)) = Inr (h, \<lambda>i. rs (Suc (Suc i)))"
      "30 \<le> h" "h \<le> 61"
    using number_int_range_bounds[of 30 60 "\<lambda>i. rs (Suc i)"] by auto
  obtain p where p: "number_int (IntMax 100) (\<lambda>i. rs (Suc (Suc i))) = Inr (p, \<lambda>i. rs (Suc (Suc (Suc i))))"
      "0 \<le> p" "p \<le> 100"
    using number_int_max_bounds[of 100 "\<lambda>i. rs (Suc (Suc i))"] by auto
  obtain a where a: "number_int (IntMax 10) (\<lambda>i. rs (Suc (Suc (Suc i)))) = Inr (a, \<lambda>i. rs (Suc (Suc (Suc (Suc i)))))"
      "0 \<le> a" "a \<le> 10"
    using number_int_max_bounds[of 10 "\<lambda>i. rs (Suc (Suc (Suc i)))"] by auto
  obtain c where c: "number_int (IntMax 10) (\<lambda>i. rs (Suc (Suc (Suc (Suc i))))) = Inr (c, \<lambda>i. rs (Suc (Suc (Suc (Suc (Suc i))))))"
      "0 \<le> c" "c \<le> 10"
    using number_int_max_bounds[of 10 "\<lambda>i. rs (Suc (Suc (Suc (Suc i))))"] by auto
  obtain v where v: "number_int (IntMax 12) (\<lambda>i. rs (Suc (Suc (Suc (Suc (Suc i)))))) = Inr (v, \<lambda>i. rs (Suc (Suc (Suc (Suc (Suc (Suc i)))))))"
      "0 \<le> v" "v \<le> 12"
    using number_int_max_bounds[of 12 "\<lambda>i. rs (Suc (Suc (Suc (Suc (Suc i)))))"] by auto
  have "(\<lambda>i. rs (Suc (Suc (Suc (Suc (Suc (Suc i))))))) = (\<lambda>i. rs (i + 6))" by (simp add: eval_nat_numeral)
  then show ?thesis using t h p a c v
    by (simp add: generateSensorData_def in_range_def js_num_def)
qed

text \<open>
  C16. With faker's \<open>number.int\<close> as modelled, \<open>generateSensorData\<close> reports humidity 61,
  outside the documented \<open>[30, 60]\<close>, exactly when the second draw of the randomizer is
  its largest value \<open>2^53 - 1\<close>: there \<open>real * 31\<close> rounds to \<open>31 - 2^-48\<close> and adding 30
  lands halfway between two doubles, which rounds to the even 61; for every smaller draw
  the two roundings stay below 61.
\<close>

theorem generateSensorData_humidity_61:
  "\<exists>d. generateSensorData number_int kiosk_id now rs = Inr (d, \<lambda>i. rs (i + 6)) \<and>
     (sd_humidity d = Finite 61 0 \<longleftrightarrow> rs 1 = - 1)"
  using reading_humidity[of "rs 1"] by (simp add: generateSensorData_readings js_num_def)

end
