(* ===== verification/Highlight.thy ===== *)
theory Highlight
  imports Prelude
begin

text \<open>
  \<open>src/lib/utils/highlight.ts\<close>, \<open>syntaxHighlight\<close>: the three \<open>replace\<close> calls that
  escape \<open>&\<close>, \<open><\<close>, \<open>>\<close>, then one global \<open>replace\<close> with the token pattern
  \<^verbatim>\<open>("(\\u[a-zA-Z0-9]{4}|\\[^u]|[^\\"])*"(\s*:)?|\b(true|false|null)\b|-?\d+(?:\.\d*)?(?:[eE][+\-]?\d+)?)\<close>
  whose callback wraps each match in a span carrying its class. Each alternative of the
  pattern is a matcher \<open>string \<Rightarrow> (match \<times> rest) option\<close>; the global replace is
  \<open>scan\<close>, which at each position tries the pattern and otherwise copies one character.
\<close>

subsection \<open>HTML escaping\<close>

definition escape_html :: "string \<Rightarrow> string" where
  "escape_html s = replace_char CHR ''>'' ''&gt;''
     (replace_char CHR ''<'' ''&lt;'' (replace_char CHR ''&'' ''&amp;'' s))"

definition escape_char :: "char \<Rightarrow> string" where
  "escape_char c = (if c = CHR ''&'' then ''&amp;'' else if c = CHR ''<'' then ''&lt;''
                    else if c = CHR ''>'' then ''&gt;'' else [c])"

lemma escape_html_Nil [simp]: "escape_html [] = []"
  by (simp add: escape_html_def)

lemma escape_html_Cons [simp]: "escape_html (c # s) = escape_char c @ escape_html s"
  by (simp add: escape_html_def escape_char_def)

lemma escape_html_append [simp]: "escape_html (s @ t) = escape_html s @ escape_html t"
  by (induction s) auto

text \<open>Decoding the three entities, left to right: the inverse the spec's round trip uses.\<close>

fun unescape_html :: "string \<Rightarrow> string" where
  "unescape_html [] = []"
| "unescape_html (c # cs) =
     (if c = CHR ''&'' \<and> take 4 cs = ''amp;'' then CHR ''&'' # unescape_html (drop 4 cs)
      else if c = CHR ''&'' \<and> take 3 cs = ''lt;'' then CHR ''<'' # unescape_html (drop 3 cs)
      else if c = CHR ''&'' \<and> take 3 cs = ''gt;'' then CHR ''>'' # unescape_html (drop 3 cs)
      else c # unescape_html cs)"

subsection \<open>The alternatives of the pattern\<close>

text \<open>
  The body of a string literal, \<open>(\\u[a-zA-Z0-9]{4}|\\[^u]|[^\\"])*\<close>, taken greedily.
  At each position at most one of the three alternatives applies, and every position
  where an iteration starts holds a backslash or a character other than \<open>"\<close>; so the
  backtracking of the star can never end on a closing quote earlier than the greedy run
  does, and the greedy run is what the regex engine settles on.
\<close>

fun str_body :: "string \<Rightarrow> string \<times> string" where
  "str_body [] = ([], [])"
| "str_body (c # cs) =
     (if c = backslash then
        (case cs of
           [] \<Rightarrow> ([], [c])
         | d # ds \<Rightarrow>
             (if d = CHR ''u'' then
                (if 4 \<le> length ds \<and> list_all is_alnum (take 4 ds)
                 then (case str_body (drop 4 ds) of (b, r) \<Rightarrow> (c # d # take 4 ds @ b, r))
                 else ([], c # cs))
              else (case str_body ds of (b, r) \<Rightarrow> (c # d # b, r))))
      else if c = dquote then ([], c # cs)
      else (case str_body cs of (b, r) \<Rightarrow> (c # b, r)))"

text \<open>\<open>"body"(\s*:)?\<close>: the optional colon group is taken when it matches.\<close>

definition match_string :: "string \<Rightarrow> (string \<times> string) option" where
  "match_string s = (case s of
     c # cs \<Rightarrow>
       (if c \<noteq> dquote then None
        else (case str_body cs of (b, r) \<Rightarrow>
          (case r of
             d # r' \<Rightarrow>
               (if d \<noteq> dquote then None
                else (case dropWhile is_js_space r' of
                        e # r'' \<Rightarrow>
                          (if e = CHR '':'' then Some (c # b @ d # takeWhile is_js_space r' @ [e], r'')
                           else Some (c # b @ [d], r'))
                      | [] \<Rightarrow> Some (c # b @ [d], r')))
           | [] \<Rightarrow> None)))
   | [] \<Rightarrow> None)"

text \<open>
  \<open>\b(true|false|null)\b\<close>: the character before must not be a word character (the
  literals start with one), nor the one after.
\<close>

definition boundary_before :: "char option \<Rightarrow> bool" where
  "boundary_before p = (case p of None \<Rightarrow> True | Some c \<Rightarrow> \<not> is_word_char c)"

definition match_literal :: "char option \<Rightarrow> string \<Rightarrow> (string \<times> string) option" where
  "match_literal p s =
     (if \<not> boundary_before p then None
      else (case find (\<lambda>w. take (length w) s = w) [''true'', ''false'', ''null''] of
              None \<Rightarrow> None
            | Some w \<Rightarrow> (let r = drop (length w) s in
                          if r = [] \<or> \<not> is_word_char (hd r) then Some (w, r) else None)))"

text \<open>
  \<open>-?\d+(?:\.\d*)?(?:[eE][+\-]?\d+)?\<close>: every part after \<open>\d+\<close> is optional, so the
  greedy choices succeed at once; an exponent marker not followed by digits is left.
\<close>

definition match_exponent :: "string \<Rightarrow> string \<times> string" where
  "match_exponent s = (case s of
     c # cs \<Rightarrow>
       (if c \<in> {CHR ''e'', CHR ''E''} then
          (let sg = (case cs of d # _ \<Rightarrow> if d \<in> {CHR ''+'', CHR ''-''} then [d] else [] | [] \<Rightarrow> []);
               t = drop (length sg) cs;
               ds = takeWhile is_digit t
           in if ds = [] then ([], s) else (c # sg @ ds, dropWhile is_digit t))
        else ([], s))
   | [] \<Rightarrow> ([], s))"

definition match_fraction :: "string \<Rightarrow> string \<times> string" where
  "match_fraction s = (case s of
     c # t \<Rightarrow> (if c = CHR ''.'' then (c # takeWhile is_digit t, dropWhile is_digit t) else ([], s))
   | [] \<Rightarrow> ([], s))"

definition match_number :: "string \<Rightarrow> (string \<times> string) option" where
  "match_number s =
     (let sg = (if take 1 s = ''-'' then ''-'' else []);
          s1 = drop (length sg) s;
          ds = takeWhile is_digit s1
      in if ds = [] then None
         else (case match_fraction (dropWhile is_digit s1) of (fr, s3) \<Rightarrow>
                (case match_exponent s3 of (ex, s4) \<Rightarrow> Some (sg @ ds @ fr @ ex, s4))))"

text \<open>The pattern: its alternatives in order, at one position.\<close>

definition match_token :: "char option \<Rightarrow> string \<Rightarrow> (string \<times> string) option" where
  "match_token p s = (case match_string s of
     Some x \<Rightarrow> Some x
   | None \<Rightarrow> (case match_literal p s of Some x \<Rightarrow> Some x | None \<Rightarrow> match_number s))"

subsection \<open>Every match is a non-empty prefix\<close>

lemma str_body_split: "str_body s = (b, r) \<Longrightarrow> s = b @ r"
proof (induction s arbitrary: b r rule: str_body.induct)
  case 1
  then show ?case by simp
next
  case (2 c cs)
  show ?case
  proof (cases "c = backslash")
    case bs: True
    show ?thesis
    proof (cases cs)
      case Nil
      with bs "2.prems" show ?thesis by simp
    next
      case (Cons d ds)
      show ?thesis
      proof (cases "d = CHR ''u''")
        case du: True
        show ?thesis
        proof (cases "4 \<le> length ds \<and> list_all is_alnum (take 4 ds)")
          case ok: True
          obtain b' r' where br: "str_body (drop 4 ds) = (b', r')" by (metis surj_pair)
          have "drop 4 ds = b' @ r'" using "2.IH"(1) [OF bs Cons du ok br] .
          moreover have "b = c # d # take 4 ds @ b'" and "r = r'"
            using "2.prems" bs Cons du ok br by simp_all
          ultimately show ?thesis using Cons by (metis append_Cons append_assoc append_take_drop_id)
        next
          case False
          with "2.prems" bs Cons du show ?thesis by simp
        qed
      next
        case nu: False
        obtain b' r' where br: "str_body ds = (b', r')" by (metis surj_pair)
        have "ds = b' @ r'" using "2.IH"(2) [OF bs Cons nu br] .
        moreover have "b = c # d # b'" and "r = r'"
          using "2.prems" bs Cons nu br by simp_all
        ultimately show ?thesis using Cons by simp
      qed
    qed
  next
    case nb: False
    show ?thesis
    proof (cases "c = dquote")
      case True
      with "2.prems" nb show ?thesis by simp
    next
      case nq: False
      obtain b' r' where br: "str_body cs = (b', r')" by (metis surj_pair)
      have "cs = b' @ r'" using "2.IH"(3) [OF nb nq br] .
      moreover have "b = c # b'" and "r = r'"
        using "2.prems" nb nq br by simp_all
      ultimately show ?thesis by simp
    qed
  qed
qed
lemma match_string_split: "match_string s = Some (m, r) \<Longrightarrow> s = m @ r \<and> m \<noteq> []"
proof -
  assume h: "match_string s = Some (m, r)"
  then obtain cs where s: "s = dquote # cs"
    by (cases s) (auto simp: match_string_def split: if_splits)
  obtain b r1 where br: "str_body cs = (b, r1)" by (metis surj_pair)
  with h s obtain r' where r1: "r1 = dquote # r'"
    by (cases r1) (auto simp: match_string_def split: if_splits)
  have cs: "cs = b @ dquote # r'" using str_body_split [OF br] r1 by simp
  have r': "r' = takeWhile is_js_space r' @ dropWhile is_js_space r'" by simp
  show ?thesis
  proof (cases "dropWhile is_js_space r'")
    case Nil
    with h s br r1 cs show ?thesis by (auto simp: match_string_def simp del: dropWhile_eq_Nil_conv)
  next
    case (Cons e r'')
    with h s br r1 cs r' show ?thesis
      by (auto simp: match_string_def split: if_splits)
  qed
qed

lemma match_literal_split: "match_literal p s = Some (m, r) \<Longrightarrow> s = m @ r \<and> m \<noteq> []"
  by (auto simp: match_literal_def Let_def find_Some_iff split: if_splits option.splits)

lemma match_exponent_split: "match_exponent s = (x, r) \<Longrightarrow> s = x @ r"
  by (auto simp: match_exponent_def Let_def split: list.splits if_splits)

lemma match_fraction_split: "match_fraction s = (x, r) \<Longrightarrow> s = x @ r"
  by (auto simp: match_fraction_def split: list.splits if_splits)

lemma minus_take: "take 1 s = ''-'' \<Longrightarrow> s = CHR ''-'' # drop 1 s"
  by (cases s) auto

lemma minus_sign_split: "s = (if take 1 s = ''-'' then ''-'' else []) @ drop (length (if take 1 s = ''-'' then ''-'' else [])) s"
  using minus_take [of s] by auto

lemma match_number_split: "match_number s = Some (m, r) \<Longrightarrow> s = m @ r \<and> m \<noteq> []"
proof -
  assume h: "match_number s = Some (m, r)"
  define sg where "sg = (if take 1 s = ''-'' then ''-'' else [])"
  define s1 where "s1 = drop (length sg) s"
  obtain fr s3 where fr: "match_fraction (dropWhile is_digit s1) = (fr, s3)" by (metis surj_pair)
  obtain ex s4 where ex: "match_exponent s3 = (ex, s4)" by (metis surj_pair)
  from h fr ex have m: "m = sg @ takeWhile is_digit s1 @ fr @ ex" and r: "r = s4"
    and ne: "takeWhile is_digit s1 \<noteq> []"
    by (auto simp: match_number_def Let_def sg_def s1_def split: if_splits)
  have "s = sg @ s1" unfolding sg_def s1_def by (rule minus_sign_split)
  also have "s1 = takeWhile is_digit s1 @ dropWhile is_digit s1" by simp
  also have "dropWhile is_digit s1 = fr @ s3" by (rule match_fraction_split [OF fr])
  also have "s3 = ex @ s4" by (rule match_exponent_split [OF ex])
  finally have "s = m @ r" by (simp add: m r)
  with m ne show ?thesis by simp
qed

lemma match_token_split: "match_token p s = Some (m, r) \<Longrightarrow> s = m @ r \<and> m \<noteq> []"
  by (auto simp: match_token_def dest: match_string_split match_literal_split match_number_split
      split: option.splits)

lemma match_token_shorter: "match_token p s = Some (m, r) \<Longrightarrow> length r < length s"
  by (auto dest!: match_token_split)

subsection \<open>The callback and the global replace\<close>

text \<open>\<open>/w/.test(match)\<close>: \<open>w\<close> occurs somewhere in the match.\<close>

fun str_contains :: "string \<Rightarrow> string \<Rightarrow> bool" where
  "str_contains w [] = (w = [])"
| "str_contains w (c # cs) = (take (length w) (c # cs) = w \<or> str_contains w cs)"

text \<open>
  The callback: \<open>cls\<close> starts as \<open>number\<close>; a match starting with a quote is a
  \<open>key\<close> when it ends with a colon and a \<open>string\<close> otherwise; else \<open>boolean\<close> if it
  contains \<open>true\<close> or \<open>false\<close>, \<open>null\<close> if it contains \<open>null\<close>.
\<close>

definition token_class :: "string \<Rightarrow> string" where
  "token_class m =
     (if take 1 m = [dquote] then (if last m = CHR '':'' then ''key'' else ''string'')
      else if str_contains ''true'' m \<or> str_contains ''false'' m then ''boolean''
      else if str_contains ''null'' m then ''null''
      else ''number'')"

definition span_open :: "string \<Rightarrow> string" where
  "span_open cls = ''<span class='' @ [dquote] @ cls @ [dquote] @ ''>''"

definition span_close :: string where
  "span_close = ''</span>''"

definition highlight_token :: "string \<Rightarrow> string" where
  "highlight_token m = span_open (token_class m) @ m @ span_close"

text \<open>
  \<open>String.prototype.replace\<close> with a global pattern: from the current position, the first
  position where the pattern matches; the characters before it are copied, the match is
  replaced by the callback's result, and the search resumes after the match. The pattern
  never matches the empty string. \<open>p\<close> is the character before the current position,
  which decides \<open>\b\<close>.
\<close>

function scan :: "char option \<Rightarrow> string \<Rightarrow> string" where
  "scan p [] = []"
| "scan p (c # cs) = (case match_token p (c # cs) of
     Some (m, r) \<Rightarrow> highlight_token m @ scan (Some (last m)) r
   | None \<Rightarrow> c # scan (Some c) cs)"
  by pat_completeness auto
termination
  by (relation "measure (\<lambda>(p, s). length s)") (auto dest: match_token_shorter)

definition syntaxHighlight :: "string \<Rightarrow> string" where
  "syntaxHighlight json_string = scan None (escape_html json_string)"

lemmas scan_eqs [scan_simps] = scan.simps match_token_def

subsection \<open>Reading the output back\<close>

text \<open>The text content of the HTML: every \<open><...>\<close> tag removed.\<close>

function strip_tags :: "string \<Rightarrow> string" where
  "strip_tags [] = []"
| "strip_tags (c # cs) = (if c = CHR ''<'' then strip_tags (drop 1 (dropWhile (\<lambda>x. x \<noteq> CHR ''>'') cs))
                         else c # strip_tags cs)"
  by pat_completeness auto
termination
  by (relation "measure length")
    (auto simp: less_Suc_eq_le intro: order_trans [OF diff_le_self length_dropWhile_le])

lemma strip_tags_text: "CHR ''<'' \<notin> set t \<Longrightarrow> strip_tags (t @ r) = t @ strip_tags r"
  by (induction t) auto

lemma strip_tags_tag:
  "CHR ''>'' \<notin> set x \<Longrightarrow> strip_tags (CHR ''<'' # x @ CHR ''>'' # r) = strip_tags r"
proof -
  assume "CHR ''>'' \<notin> set x"
  then have "dropWhile (\<lambda>y. y \<noteq> CHR ''>'') (x @ CHR ''>'' # r) = CHR ''>'' # r"
    by (induction x) auto
  then show ?thesis by simp
qed

lemma token_class_cases: "token_class m \<in> {''key'', ''string'', ''boolean'', ''null'', ''number''}"
  by (simp add: token_class_def)

lemma span_open_tag: "span_open cls = CHR ''<'' # (''span class='' @ [dquote] @ cls @ [dquote]) @ [CHR ''>'']"
  by (simp add: span_open_def)

lemma strip_tags_highlight_token:
  assumes "CHR ''<'' \<notin> set m"
  shows "strip_tags (highlight_token m @ r) = m @ strip_tags r"
proof -
  have cls: "CHR ''>'' \<notin> set (''span class='' @ [dquote] @ token_class m @ [dquote])"
    using token_class_cases [of m] by auto
  have "strip_tags (span_close @ r) = strip_tags r"
    using strip_tags_tag [of "''/span''" r] by (simp add: span_close_def)
  then show ?thesis
    using strip_tags_tag [OF cls] assms
    by (simp add: highlight_token_def span_open_tag strip_tags_text)
qed

lemma strip_tags_scan: "CHR ''<'' \<notin> set s \<Longrightarrow> strip_tags (scan p s) = s"
proof (induction p s rule: scan.induct)
  case (1 p)
  then show ?case by simp
next
  case (2 p c cs)
  show ?case
  proof (cases "match_token p (c # cs)")
    case None
    with 2 show ?thesis by auto
  next
    case (Some mr)
    obtain m r where mr: "mr = (m, r)" by (cases mr)
    with Some have split: "c # cs = m @ r" by (blast dest: match_token_split)
    with "2.prems" have m_ok: "CHR ''<'' \<notin> set m" and r_ok: "CHR ''<'' \<notin> set r" by auto
    have eq: "scan p (c # cs) = highlight_token m @ scan (Some (last m)) r"
      using Some mr by simp
    have IH: "strip_tags (scan (Some (last m)) r) = r"
      using "2.IH"(2) [OF Some [unfolded mr] refl] r_ok .
    show ?thesis
      unfolding eq by (simp add: strip_tags_highlight_token m_ok IH split)
  qed
qed

lemma escape_html_no_brackets:
  "CHR ''<'' \<notin> set (escape_html s) \<and> CHR ''>'' \<notin> set (escape_html s)"
  by (induction s) (auto simp: escape_char_def)

lemma unescape_escape_html: "unescape_html (escape_html s) = s"
  by (induction s) (auto simp: escape_char_def)

subsection \<open>The output as a token stream\<close>

text \<open>
  What the replace produces, as a list of segments: copied text, or a match with the
  class the callback gave it. \<open>scan_tokens\<close> follows the recursion of \<open>scan\<close>.
\<close>

datatype segment = Text string | Span string string

fun segment_text :: "segment \<Rightarrow> string" where
  "segment_text (Text t) = t"
| "segment_text (Span c t) = t"

fun segment_class :: "segment \<Rightarrow> string option" where
  "segment_class (Text t) = None"
| "segment_class (Span c t) = Some c"

fun render_segment :: "segment \<Rightarrow> string" where
  "render_segment (Text t) = t"
| "render_segment (Span c t) = span_open c @ t @ span_close"

definition render :: "segment list \<Rightarrow> string" where
  "render ss = concat (map render_segment ss)"

function scan_tokens :: "char option \<Rightarrow> string \<Rightarrow> segment list" where
  "scan_tokens p [] = []"
| "scan_tokens p (c # cs) = (case match_token p (c # cs) of
     Some (m, r) \<Rightarrow> Span (token_class m) m # scan_tokens (Some (last m)) r
   | None \<Rightarrow> Text [c] # scan_tokens (Some c) cs)"
  by pat_completeness auto
termination
  by (relation "measure (\<lambda>(p, s). length s)") (auto dest: match_token_shorter)

lemma render_simps [simp]: "render [] = []" "render (x # xs) = render_segment x @ render xs"
  by (simp_all add: render_def)

lemma scan_render: "scan p s = render (scan_tokens p s)"
  by (induction p s rule: scan_tokens.induct) (auto simp: highlight_token_def split: option.splits)

lemma scan_tokens_text: "concat (map segment_text (scan_tokens p s)) = s"
  by (induction p s rule: scan_tokens.induct) (auto dest: match_token_split split: option.splits)

lemma scan_tokens_segments:
  "seg \<in> set (scan_tokens p s) \<Longrightarrow> set (segment_text seg) \<subseteq> set s \<and>
     segment_class seg \<in> {None} \<union> Some ` {''key'', ''string'', ''boolean'', ''null'', ''number''}"
proof (induction p s rule: scan_tokens.induct)
  case (1 p)
  then show ?case by simp
next
  case (2 p c cs)
  show ?case
  proof (cases "match_token p (c # cs)")
    case None
    with 2 show ?thesis by auto
  next
    case (Some mr)
    obtain m r where mr: "mr = (m, r)" by (cases mr)
    with Some have split: "c # cs = m @ r" by (blast dest: match_token_split)
    have "seg = Span (token_class m) m \<or> seg \<in> set (scan_tokens (Some (last m)) r)"
      using "2.prems" Some mr by simp
    then show ?thesis
    proof
      assume "seg = Span (token_class m) m"
      then show ?thesis using split token_class_cases [of m] by auto
    next
      assume "seg \<in> set (scan_tokens (Some (last m)) r)"
      with "2.IH"(2) [OF Some [unfolded mr] refl] split show ?thesis by auto
    qed
  qed
qed
subsection \<open>Classes of the alternatives\<close>

lemma str_contains_set: "str_contains w m \<Longrightarrow> set w \<subseteq> set m"
proof (induction m)
  case Nil
  then show ?case by simp
next
  case (Cons a m)
  then show ?case using set_take_subset [of "length w" "a # m"] by auto
qed

text \<open>The characters a number match is made of.\<close>

definition number_chars :: "char set" where
  "number_chars = {c. is_digit c} \<union> {CHR ''-'', CHR ''.'', CHR ''e'', CHR ''E'', CHR ''+''}"
lemma match_fraction_chars: "match_fraction s = (fr, r) \<Longrightarrow> set fr \<subseteq> number_chars"
  by (auto simp: match_fraction_def number_chars_def dest: set_takeWhileD split: list.splits if_splits)
lemma match_exponent_chars: "match_exponent s = (ex, r) \<Longrightarrow> set ex \<subseteq> number_chars"
  by (auto simp: match_exponent_def number_chars_def Let_def dest: set_takeWhileD
      split: list.splits if_splits)
lemma match_number_chars: "match_number s = Some (m, r) \<Longrightarrow> set m \<subseteq> number_chars"
proof -
  assume h: "match_number s = Some (m, r)"
  define sg where "sg = (if take 1 s = ''-'' then ''-'' else [])"
  define s1 where "s1 = drop (length sg) s"
  obtain fr s3 where fr: "match_fraction (dropWhile is_digit s1) = (fr, s3)" by (metis surj_pair)
  obtain ex s4 where ex: "match_exponent s3 = (ex, s4)" by (metis surj_pair)
  from h fr ex have m: "m = sg @ takeWhile is_digit s1 @ fr @ ex"
    by (auto simp: match_number_def Let_def sg_def s1_def split: if_splits)
  have "set sg \<subseteq> number_chars" by (auto simp: sg_def number_chars_def)
  moreover have "set (takeWhile is_digit s1) \<subseteq> number_chars"
    by (auto simp: number_chars_def dest: set_takeWhileD)
  ultimately show ?thesis
    using m match_fraction_chars [OF fr] match_exponent_chars [OF ex] by auto
qed

lemma match_string_quote: "match_string s = Some (m, r) \<Longrightarrow> take 1 m = [dquote]"
  by (auto simp: match_string_def split: list.splits if_splits prod.splits)

lemma match_literal_words: "match_literal p s = Some (m, r) \<Longrightarrow> m \<in> {''true'', ''false'', ''null''}"
  by (auto simp: match_literal_def Let_def find_Some_iff less_Suc_eq nth_Cons'
      split: if_splits option.splits)

lemma number_chars_letters: "CHR ''t'' \<notin> number_chars" "CHR ''f'' \<notin> number_chars"
  "CHR ''n'' \<notin> number_chars" "dquote \<notin> number_chars"
  by (simp_all add: number_chars_def is_digit_def)

lemma not_str_contains: "c \<in> set w \<Longrightarrow> c \<notin> set m \<Longrightarrow> \<not> str_contains w m"
  using str_contains_set by blast

subsection \<open>Properties\<close>

text \<open>
  C11. Stripping the inserted tags from the output of \<open>syntaxHighlight\<close> and decoding
  the three entities gives back its input, whatever the input: the highlighter changes
  nothing but the markup it adds.
\<close>

theorem syntaxHighlight_roundtrip: "unescape_html (strip_tags (syntaxHighlight s)) = s"
  using escape_html_no_brackets [of s]
  by (simp add: syntaxHighlight_def strip_tags_scan unescape_escape_html)

text \<open>
  C12. The output is a sequence of copied text and spans, every text free of \<open><\<close> and
  \<open>>\<close> (so the only markup is the inserted spans), every span class one of \<open>key\<close>,
  \<open>string\<close>, \<open>boolean\<close>, \<open>null\<close>, \<open>number\<close>, and the texts together are the escaped input.
\<close>

theorem syntaxHighlight_segments:
  "syntaxHighlight s = render (scan_tokens None (escape_html s)) \<and>
   concat (map segment_text (scan_tokens None (escape_html s))) = escape_html s \<and>
   (\<forall>seg \<in> set (scan_tokens None (escape_html s)).
      CHR ''<'' \<notin> set (segment_text seg) \<and> CHR ''>'' \<notin> set (segment_text seg) \<and>
      segment_class seg \<in> {None} \<union> Some ` {''key'', ''string'', ''boolean'', ''null'', ''number''})"
  using escape_html_no_brackets [of s] scan_tokens_segments [of _ None "escape_html s"]
  by (auto simp: syntaxHighlight_def scan_render scan_tokens_text)

theorem syntaxHighlight_segments_witness:
  "syntaxHighlight ''[1]'' = render [Text ''['', Span ''number'' ''1'', Text '']''] \<and>
   scan_tokens None (escape_html ''[1]'') = [Text ''['', Span ''number'' ''1'', Text '']'']"
proof -
  have ev: "scan_tokens None ''[1]'' = [Text ''['', Span ''number'' ''1'', Text '']'']"
    by (simp add: match_token_def match_string_def match_literal_def
        boundary_before_def match_number_def match_fraction_def match_exponent_def
        token_class_def is_digit_def is_word_char_def is_alnum_def)
  show ?thesis using syntaxHighlight_segments [of "''[1]''"] ev by (simp add: escape_char_def)
qed

text \<open>
  C13. The callback classifies each alternative of the pattern as its kind: a string
  match is a \<open>key\<close> exactly when it ends with the colon, a literal match is \<open>null\<close> or
  \<open>boolean\<close>, a number match is a \<open>number\<close>.
\<close>

theorem token_class_alternatives:
  "(match_string s1 = Some (m1, r1) \<longrightarrow>
      token_class m1 = (if last m1 = CHR '':'' then ''key'' else ''string'')) \<and>
   (match_literal p s2 = Some (m2, r2) \<longrightarrow>
      token_class m2 = (if m2 = ''null'' then ''null'' else ''boolean'')) \<and>
   (match_number s3 = Some (m3, r3) \<longrightarrow> token_class m3 = ''number'')"
proof (intro conjI impI)
  assume "match_string s1 = Some (m1, r1)"
  then have "take 1 m1 = [dquote]" by (rule match_string_quote)
  then show "token_class m1 = (if last m1 = CHR '':'' then ''key'' else ''string'')"
    by (simp add: token_class_def)
next
  assume "match_literal p s2 = Some (m2, r2)"
  then show "token_class m2 = (if m2 = ''null'' then ''null'' else ''boolean'')"
    by (auto dest!: match_literal_words simp: token_class_def)
next
  assume h: "match_number s3 = Some (m3, r3)"
  then have chars: "set m3 \<subseteq> number_chars" by (rule match_number_chars)
  have ne: "m3 \<noteq> []" using match_number_split [OF h] by simp
  then have "take 1 m3 \<noteq> [dquote]"
    using chars number_chars_letters(4) by (cases m3) auto
  moreover have "\<not> str_contains ''true'' m3"
    using not_str_contains [of "CHR ''t''" "''true''" m3] chars number_chars_letters by auto
  moreover have "\<not> str_contains ''false'' m3"
    using not_str_contains [of "CHR ''f''" "''false''" m3] chars number_chars_letters by auto
  moreover have "\<not> str_contains ''null'' m3"
    using not_str_contains [of "CHR ''n''" "''null''" m3] chars number_chars_letters by auto
  ultimately show "token_class m3 = ''number''"
    by (simp add: token_class_def)
qed

theorem token_class_alternatives_witness:
  \<open>match_string ''"a": 1'' = Some (''"a":'', '' 1'') \<and> token_class ''"a":'' = ''key'' \<and>
   match_literal None ''null'' = Some (''null'', []) \<and> token_class ''null'' = ''null'' \<and>
   match_number ''-2'' = Some (''-2'', []) \<and> token_class ''-2'' = ''number''\<close>
proof -
  have h1: \<open>match_string ''"a": 1'' = Some (''"a":'', '' 1'')\<close>
    by (simp add: match_string_def is_js_space_def)
  have h2: "match_literal None ''null'' = Some (''null'', [])"
    by (simp add: match_literal_def boundary_before_def)
  have h3: "match_number ''-2'' = Some (''-2'', [])"
    by (simp add: match_number_def match_fraction_def match_exponent_def is_digit_def)
  show ?thesis
    using token_class_alternatives [of \<open>''"a": 1''\<close> \<open>''"a":''\<close> "'' 1''" None "''null''" "''null''" "[]"
        "''-2''" "''-2''" "[]"] h1 h2 h3 by simp
qed

text \<open>
  C18. The three global \<open>replace\<close> calls of \<open>syntaxHighlight\<close> (first \<open>&\<close>, then \<open><\<close>,
  then \<open>>\<close>) are one pass that escapes each character on its own: since \<open>&\<close> is
  replaced first, no entity written by a later pass is escaped again.
\<close>

theorem escape_html_one_pass: "escape_html s = concat (map escape_char s)"
  by (induction s) simp_all

end
