(* ===== verification/Stringify.thy ===== *)
theory Stringify
  imports JsValue Highlight
begin

text \<open>
  \<open>highlight\<close> in \<open>src/lib/utils/highlight.ts\<close>:
  \<open>syntaxHighlight(JSON.stringify(obj, undefined, 4))\<close>. \<open>JSON.stringify\<close> is modelled
  after ECMAScript's \<open>SerializeJSONProperty\<close>, \<open>SerializeJSONObject\<close>,
  \<open>SerializeJSONArray\<close> and \<open>QuoteJSONString\<close> with the gap of four spaces, and
  \<open>Number::toString\<close> for the numbers. \<open>JSON.stringify\<close> returns \<open>undefined\<close> for
  \<open>undefined\<close>, and \<open>syntaxHighlight\<close> then calls \<open>replace\<close> on it: the \<open>TypeError\<close>
  is the error branch of \<open>highlight\<close>.
\<close>

abbreviation newline :: char where "newline \<equiv> CHR 0x0A"

subsection \<open>\<open>Number::toString\<close>\<close>

text \<open>The hexadecimal digit characters, lower case as \<open>UnicodeEscape\<close> writes them.\<close>

definition hex_digit :: "nat \<Rightarrow> char" where
  "hex_digit d = ''0123456789abcdef'' ! d"

text \<open>The decimal digits of a natural number, most significant first.\<close>

fun digits_nat :: "nat \<Rightarrow> string" where
  "digits_nat n = (if n < 10 then [hex_digit n]
                   else digits_nat (n div 10) @ [hex_digit (n mod 10)])"

declare digits_nat.simps [simp del]

text \<open>\<open>n = s \<cdot> 10^z\<close> with \<open>s\<close> not divisible by ten (for \<open>n \<noteq> 0\<close>).\<close>

fun strip_zeros :: "nat \<Rightarrow> nat \<times> nat" where
  "strip_zeros n = (if n \<noteq> 0 \<and> n mod 10 = 0
                    then (case strip_zeros (n div 10) of (s, z) \<Rightarrow> (s, Suc z)) else (n, 0))"

declare strip_zeros.simps [simp del]

text \<open>
  \<open>Number::toString(m \<cdot> 10^e)\<close>: with \<open>s\<close> the \<open>k\<close> significant digits and \<open>n\<close> the
  position of the decimal point (the value is \<open>0.s \<cdot> 10^n\<close>), the four cases of the
  standard: an integer with trailing zeros up to \<open>n = 21\<close>, a decimal point inside the
  digits, a leading \<open>0.\<close> down to \<open>n = -5\<close>, and otherwise exponential notation.
\<close>

definition number_to_string :: "int \<Rightarrow> int \<Rightarrow> string" where
  "number_to_string m e = (if m = 0 then ''0'' else
     (case strip_zeros (nat \<bar>m\<bar>) of (s, z) \<Rightarrow>
       (let sg = (if m < 0 then ''-'' else []);
            ds = digits_nat s; k = int (length ds); n = k + e + int z
        in sg @ (if k \<le> n \<and> n \<le> 21 then ds @ replicate (nat (n - k)) (CHR ''0'')
                 else if 0 < n \<and> n \<le> 21 then take (nat n) ds @ ''.'' @ drop (nat n) ds
                 else if -6 < n \<and> n \<le> 0 then ''0.'' @ replicate (nat (- n)) (CHR ''0'') @ ds
                 else (let ex = CHR ''e'' # (if 0 < n - 1 then ''+'' else ''-'') @ digits_nat (nat \<bar>n - 1\<bar>)
                       in if k = 1 then ds @ ex else take 1 ds @ ''.'' @ drop 1 ds @ ex)))))"

text \<open>\<open>SerializeJSONProperty\<close> on a number: finite numbers by \<open>ToString\<close>, the others as \<open>null\<close>.\<close>

definition json_number :: "jsnum \<Rightarrow> string" where
  "json_number x = (case x of Finite m e \<Rightarrow> number_to_string m e | _ \<Rightarrow> ''null'')"

subsection \<open>\<open>QuoteJSONString\<close>\<close>

definition json_escape_char :: "char \<Rightarrow> string" where
  "json_escape_char c = (let n = (of_char c :: nat) in
     if n = 8 then [backslash, CHR ''b''] else if n = 9 then [backslash, CHR ''t'']
     else if n = 10 then [backslash, CHR ''n''] else if n = 12 then [backslash, CHR ''f'']
     else if n = 13 then [backslash, CHR ''r''] else if c = dquote then [backslash, dquote]
     else if c = backslash then [backslash, backslash]
     else if n < 32 then [backslash, CHR ''u'', CHR ''0'', CHR ''0'', hex_digit (n div 16), hex_digit (n mod 16)]
     else [c])"

definition quote_json :: "string \<Rightarrow> string" where
  "quote_json s = dquote # concat (map json_escape_char s) @ [dquote]"

subsection \<open>\<open>SerializeJSONProperty\<close> with a gap of four spaces\<close>

definition gap :: string where
  "gap = replicate 4 (CHR '' '')"

text \<open>
  \<open>json_ser indent v\<close>: the serialization of \<open>v\<close> at the current indent, or \<open>None\<close> for
  \<open>undefined\<close>. In an array an \<open>undefined\<close> element is written \<open>null\<close>; in an object a
  property whose value is \<open>undefined\<close> is left out. An empty array or object, or one
  whose properties are all left out, is \<open>[]\<close> or \<open>{}\<close>.
\<close>

fun json_ser :: "string \<Rightarrow> jsval \<Rightarrow> string option" where
  "json_ser ind JUndefined = None"
| "json_ser ind JNull = Some ''null''"
| "json_ser ind (JBool b) = Some (if b then ''true'' else ''false'')"
| "json_ser ind (JNumber x) = Some (json_number x)"
| "json_ser ind (JString s) = Some (quote_json s)"
| "json_ser ind (JArray xs) =
     (let items = map (\<lambda>x. case json_ser (ind @ gap) x of None \<Rightarrow> ''null'' | Some t \<Rightarrow> t) xs
      in Some (if items = [] then ''[]''
               else CHR ''['' # newline # ind @ gap @ join (CHR '','' # newline # ind @ gap) items @
                    newline # ind @ '']''))"
| "json_ser ind (JObject kvs) =
     (let members = concat (map (\<lambda>(k, x). case json_ser (ind @ gap) x of None \<Rightarrow> []
                                   | Some t \<Rightarrow> [quote_json k @ '': '' @ t]) kvs)
      in Some (if members = [] then ''{}''
               else CHR ''{'' # newline # ind @ gap @ join (CHR '','' # newline # ind @ gap) members @
                    newline # ind @ ''}''))"

definition json_stringify :: "jsval \<Rightarrow> string option" where
  "json_stringify v = json_ser [] v"

datatype js_error = TypeError

definition highlight :: "jsval \<Rightarrow> js_error + string" where
  "highlight obj = (case json_stringify obj of None \<Rightarrow> Inl TypeError
                    | Some json_string \<Rightarrow> Inr (syntaxHighlight json_string))"

subsection \<open>The contract: the pretty-printed JSON as classified tokens\<close>

text \<open>
  What \<open>highlight\<close> promises: the 4-space pretty-printed serialization, HTML-escaped,
  with every token in a span of its kind (an object key with its colon as \<open>key\<close>, other
  strings as \<open>string\<close>, numbers as \<open>number\<close>, \<open>true\<close> and \<open>false\<close> as \<open>boolean\<close>,
  \<open>null\<close> as \<open>null\<close>) and the layout between them as text. It follows the structure of
  the serializer, emitting segments instead of characters.
\<close>

fun join_segs :: "segment \<Rightarrow> segment list list \<Rightarrow> segment list" where
  "join_segs sep [] = []"
| "join_segs sep [x] = x"
| "join_segs sep (x # y # zs) = x @ sep # join_segs sep (y # zs)"

fun json_segments :: "string \<Rightarrow> jsval \<Rightarrow> segment list option" where
  "json_segments ind JUndefined = None"
| "json_segments ind JNull = Some [Span ''null'' ''null'']"
| "json_segments ind (JBool b) = Some [Span ''boolean'' (if b then ''true'' else ''false'')]"
| "json_segments ind (JNumber x) = Some [case x of Finite m e \<Rightarrow> Span ''number'' (number_to_string m e)
                                       | _ \<Rightarrow> Span ''null'' ''null'']"
| "json_segments ind (JString s) = Some [Span ''string'' (escape_html (quote_json s))]"
| "json_segments ind (JArray xs) =
     (let items = map (\<lambda>x. case json_segments (ind @ gap) x of None \<Rightarrow> [Span ''null'' ''null'']
                             | Some ss \<Rightarrow> ss) xs
      in Some (if items = [] then [Text ''[]'']
               else Text (CHR ''['' # newline # ind @ gap) #
                    join_segs (Text (CHR '','' # newline # ind @ gap)) items @
                    [Text (newline # ind @ '']'')]))"
| "json_segments ind (JObject kvs) =
     (let members = concat (map (\<lambda>(k, x). case json_segments (ind @ gap) x of None \<Rightarrow> []
                       | Some ss \<Rightarrow> [Span ''key'' (escape_html (quote_json k) @ '':'') # Text '' '' # ss]) kvs)
      in Some (if members = [] then [Text ''{}'']
               else Text (CHR ''{'' # newline # ind @ gap) #
                    join_segs (Text (CHR '','' # newline # ind @ gap)) members @
                    [Text (newline # ind @ ''}'')]))"

subsection \<open>Layout and tokens\<close>

text \<open>The characters the pretty-printer puts between tokens.\<close>

definition layout_char :: "char \<Rightarrow> bool" where
  "layout_char c \<longleftrightarrow> c \<in> {CHR ''['', CHR '']'', CHR ''{'', CHR ''}'', CHR '','', CHR '' '', newline}"

text \<open>
  What follows a value in the serialization: nothing, a comma, or a line break before the
  closing bracket; in particular no colon after the spaces.
\<close>

definition follow :: "string \<Rightarrow> bool" where
  "follow r \<longleftrightarrow> (case r of [] \<Rightarrow> True | c # _ \<Rightarrow> c = CHR '','' \<or> c = newline) \<and>
     (case dropWhile is_js_space r of [] \<Rightarrow> True | c # _ \<Rightarrow> c \<noteq> CHR '':'')"

text \<open>The shape of a number literal: sign, integer digits, fraction, exponent.\<close>

definition num_parts :: "string \<Rightarrow> string \<Rightarrow> string \<Rightarrow> string \<Rightarrow> bool" where
  "num_parts sg ip fp xp \<longleftrightarrow> (sg = [] \<or> sg = ''-'') \<and> ip \<noteq> [] \<and> list_all is_digit ip \<and>
     (fp = [] \<or> (\<exists>ds. fp = CHR ''.'' # ds \<and> list_all is_digit ds)) \<and>
     (xp = [] \<or> (\<exists>c ds. xp = CHR ''e'' # c # ds \<and> c \<in> {CHR ''+'', CHR ''-''} \<and> ds \<noteq> [] \<and>
        list_all is_digit ds))"

text \<open>
  \<open>scan_ok t ss\<close>: scanning \<open>t\<close>, after any character that is not a word character
  and before anything that may follow a value, emits the rendering of \<open>ss\<close> and leaves
  the scan of the rest unaffected.
\<close>

definition scan_ok :: "string \<Rightarrow> segment list \<Rightarrow> bool" where
  "scan_ok t ss \<longleftrightarrow> (\<forall>p r. boundary_before p \<longrightarrow> follow r \<longrightarrow> scan p (t @ r) = render ss @ scan None r)"

subsection \<open>Matching the serializer's tokens\<close>

lemma str_body_plain:
  "backslash \<notin> set u \<Longrightarrow> dquote \<notin> set u \<Longrightarrow>
   str_body (u @ t) = (case str_body t of (b, r) \<Rightarrow> (u @ b, r))"
  by (induction u) (auto split: prod.splits)

lemma json_escape_char_cases:
  "(\<exists>x. json_escape_char c = [backslash, x] \<and>
      x \<in> {CHR ''b'', CHR ''t'', CHR ''n'', CHR ''f'', CHR ''r'', dquote, backslash}) \<or>
   (\<exists>h1 h2. json_escape_char c = [backslash, CHR ''u'', CHR ''0'', CHR ''0'', h1, h2] \<and>
      is_alnum h1 \<and> is_alnum h2) \<or>
   (json_escape_char c = [c] \<and> c \<noteq> backslash \<and> c \<noteq> dquote \<and> 32 \<le> (of_char c :: nat))"
proof -
  have all: "\<forall>c \<in> set ''0123456789abcdef''. is_alnum c" by (simp add: is_alnum_def is_digit_def)
  have hex: "is_alnum (hex_digit d)" if "d < 16" for d
  proof -
    have "d < length ''0123456789abcdef''" using that by simp
    then have "hex_digit d \<in> set ''0123456789abcdef''" unfolding hex_digit_def by (rule nth_mem)
    with all show ?thesis by blast
  qed
  show ?thesis
    using hex[of "of_char c div 16"] hex[of "of_char c mod 16"]
    by (auto simp: json_escape_char_def Let_def)
qed


lemma str_body_escape_char:
  "str_body (escape_html (json_escape_char c) @ t) =
     (case str_body t of (b, r) \<Rightarrow> (escape_html (json_escape_char c) @ b, r))"
proof -
  consider (esc) x where "json_escape_char c = [backslash, x]"
      "x \<in> {CHR ''b'', CHR ''t'', CHR ''n'', CHR ''f'', CHR ''r'', dquote, backslash}"
    | (uni) h1 h2 where "json_escape_char c = [backslash, CHR ''u'', CHR ''0'', CHR ''0'', h1, h2]"
      "is_alnum h1" "is_alnum h2"
    | (plain) "json_escape_char c = [c]" "c \<noteq> backslash" "c \<noteq> dquote"
    using json_escape_char_cases[of c] by blast
  then show ?thesis
  proof cases
    case esc
    then show ?thesis by (auto simp: escape_char_def split: prod.splits)
  next
    case uni
    have h: "escape_char h1 = [h1]" "escape_char h2 = [h2]"
      using uni(2,3) by (auto simp: escape_char_def is_alnum_def is_digit_def)
    have l: "escape_char backslash = [backslash]" "escape_char (CHR ''u'') = ''u''"
      "escape_char (CHR ''0'') = ''0''" "is_alnum (CHR ''0'')"
      by (simp_all add: escape_char_def is_alnum_def is_digit_def)
    show ?thesis using uni by (simp add: h l split: prod.splits)
  next
    case plain
    have "backslash \<notin> set (escape_char c)" "dquote \<notin> set (escape_char c)"
      using plain(2,3) by (auto simp: escape_char_def)
    then show ?thesis using plain by (simp add: str_body_plain)
  qed
qed

lemma escape_html_concat: "escape_html (concat xs) = concat (map escape_html xs)"
  by (induction xs) simp_all

lemma str_body_json:
  "str_body (escape_html (concat (map json_escape_char s)) @ dquote # r) =
     (escape_html (concat (map json_escape_char s)), dquote # r)"
  by (induction s) (simp_all add: str_body_escape_char)


lemma escape_quote_json:
  "escape_html (quote_json s) = dquote # escape_html (concat (map json_escape_char s)) @ [dquote]"
  by (simp add: quote_json_def escape_char_def)

lemma match_string_value:
  "follow r \<Longrightarrow> match_string (escape_html (quote_json s) @ r) = Some (escape_html (quote_json s), r)"
proof -
  assume f: "follow r"
  have nc: "case dropWhile is_js_space r of [] \<Rightarrow> True | c # _ \<Rightarrow> c \<noteq> CHR '':''"
    using f by (simp add: follow_def)
  show ?thesis
  proof (cases "dropWhile is_js_space r")
    case Nil
    then show ?thesis unfolding escape_quote_json
      by (simp add: match_string_def str_body_json Nil del: dropWhile_eq_Nil_conv)
  next
    case (Cons c r')
    then show ?thesis using nc unfolding escape_quote_json by (simp add: match_string_def str_body_json)
  qed
qed

lemma match_string_key:
  "match_string (escape_html (quote_json k) @ CHR '':'' # r) = Some (escape_html (quote_json k) @ '':'', r)"
  unfolding escape_quote_json
  by (simp add: match_string_def str_body_json is_js_space_def)

lemma follow_word: "follow r \<Longrightarrow> r = [] \<or> \<not> is_word_char (hd r)"
  by (auto simp: follow_def is_word_char_def is_alnum_def is_digit_def split: list.splits)

lemma match_literal_word:
  assumes "w \<in> {''true'', ''false'', ''null''}" "boundary_before p" "follow r"
  shows "match_token p (w @ r) = Some (w, r)"
proof -
  have r: "r = [] \<or> \<not> is_word_char (hd r)" by (rule follow_word[OF assms(3)])
  have "match_literal p (w @ r) = Some (w, r)" using assms(1,2) r by (auto simp: match_literal_def)
  moreover have "match_string (w @ r) = None" using assms(1) by (auto simp: match_string_def)
  ultimately show ?thesis by (simp add: match_token_def)
qed


lemma follow_cases: "follow r \<Longrightarrow> r = [] \<or> (\<exists>c r'. r = c # r' \<and> (c = CHR '','' \<or> c = newline))"
  by (cases r) (auto simp: follow_def)

lemma digits_split:
  "list_all is_digit ip \<Longrightarrow> t = [] \<or> \<not> is_digit (hd t) \<Longrightarrow>
   takeWhile is_digit (ip @ t) = ip \<and> dropWhile is_digit (ip @ t) = t"
proof (induction ip)
  case Nil
  then show ?case by (cases t) auto
qed simp

lemma follow_not_digit: "follow r \<Longrightarrow> r = [] \<or> \<not> is_digit (hd r)"
  using follow_cases[of r] by (auto simp: is_digit_def)

lemma match_exponent_parts:
  assumes "xp = [] \<or> (\<exists>c ds. xp = CHR ''e'' # c # ds \<and> c \<in> {CHR ''+'', CHR ''-''} \<and> ds \<noteq> [] \<and>
        list_all is_digit ds)" "follow r"
  shows "match_exponent (xp @ r) = (xp, r)"
  using assms(1)
proof
  assume "xp = []"
  then show ?thesis using follow_cases[OF assms(2)] by (auto simp: match_exponent_def)
next
  assume "\<exists>c ds. xp = CHR ''e'' # c # ds \<and> c \<in> {CHR ''+'', CHR ''-''} \<and> ds \<noteq> [] \<and> list_all is_digit ds"
  then obtain c ds where xp: "xp = CHR ''e'' # c # ds" "c \<in> {CHR ''+'', CHR ''-''}" "ds \<noteq> []"
    "list_all is_digit ds" by blast
  have "takeWhile is_digit (ds @ r) = ds \<and> dropWhile is_digit (ds @ r) = r"
    using digits_split[OF xp(4) follow_not_digit[OF assms(2)]] .
  then show ?thesis using xp by (auto simp: match_exponent_def Let_def)
qed

lemma match_fraction_parts:
  assumes "fp = [] \<or> (\<exists>ds. fp = CHR ''.'' # ds \<and> list_all is_digit ds)"
    and "t = [] \<or> (\<not> is_digit (hd t) \<and> hd t \<noteq> CHR ''.'')"
  shows "match_fraction (fp @ t) = (fp, t)"
  using assms(1)
proof
  assume "fp = []"
  then show ?thesis using assms(2) by (cases t) (auto simp: match_fraction_def)
next
  assume "\<exists>ds. fp = CHR ''.'' # ds \<and> list_all is_digit ds"
  then obtain ds where fp: "fp = CHR ''.'' # ds" "list_all is_digit ds" by blast
  have "takeWhile is_digit (ds @ t) = ds \<and> dropWhile is_digit (ds @ t) = t"
    using digits_split[OF fp(2)] assms(2) by blast
  then show ?thesis using fp by (simp add: match_fraction_def)
qed

lemma match_number_parts:
  assumes "num_parts sg ip fp xp" "follow r"
  shows "match_number (sg @ ip @ fp @ xp @ r) = Some (sg @ ip @ fp @ xp, r)"
proof -
  from assms(1) have sg: "sg = [] \<or> sg = ''-''" and ip: "ip \<noteq> []" "list_all is_digit ip"
    and fp: "fp = [] \<or> (\<exists>ds. fp = CHR ''.'' # ds \<and> list_all is_digit ds)"
    and xp: "xp = [] \<or> (\<exists>c ds. xp = CHR ''e'' # c # ds \<and> c \<in> {CHR ''+'', CHR ''-''} \<and> ds \<noteq> [] \<and>
        list_all is_digit ds)"
    by (simp_all add: num_parts_def)
  have hd_ip: "is_digit (hd ip)" using ip by (cases ip) simp_all
  have sg1: "(if take 1 (sg @ ip @ fp @ xp @ r) = ''-'' then ''-'' else []) = sg"
    using sg ip hd_ip by (cases ip) (auto simp: is_digit_def)
  have xr: "xp @ r = [] \<or> (\<not> is_digit (hd (xp @ r)) \<and> hd (xp @ r) \<noteq> CHR ''.'' )"
    using xp follow_cases[OF assms(2)] by (auto simp: is_digit_def)
  have fxr: "fp @ xp @ r = [] \<or> \<not> is_digit (hd (fp @ xp @ r))"
    using fp xr by (auto simp: is_digit_def)
  have d: "takeWhile is_digit (ip @ fp @ xp @ r) = ip \<and> dropWhile is_digit (ip @ fp @ xp @ r) = fp @ xp @ r"
    using digits_split[OF ip(2) fxr] .
  have f: "match_fraction (fp @ xp @ r) = (fp, xp @ r)" using match_fraction_parts[OF fp xr] .
  have e: "match_exponent (xp @ r) = (xp, r)" using match_exponent_parts[OF xp assms(2)] .
  show ?thesis using sg1 d f e ip(1) by (simp add: match_number_def Let_def)
qed


lemma hex_digit_digit: "d < 10 \<Longrightarrow> is_digit (hex_digit d)"
proof -
  assume d: "d < 10"
  have all: "\<forall>c \<in> set (take 10 ''0123456789abcdef''). is_digit c" by (simp add: is_digit_def)
  have "take 10 ''0123456789abcdef'' ! d \<in> set (take 10 ''0123456789abcdef'')"
    by (rule nth_mem) (use d in \<open>simp add: eval_nat_numeral\<close>)
  then have "hex_digit d \<in> set (take 10 ''0123456789abcdef'')"
    using d by (simp only: nth_take hex_digit_def)
  with all show ?thesis by blast
qed

lemma digits_nat_digits: "digits_nat n \<noteq> [] \<and> list_all is_digit (digits_nat n)"
proof (induction n rule: digits_nat.induct)
  case (1 n)
  then show ?case by (simp only: digits_nat.simps[of n]) (simp add: hex_digit_digit)
qed

lemma list_all_take_drop: "list_all P xs \<Longrightarrow> list_all P (take n xs) \<and> list_all P (drop n xs)"
  by (auto simp: list_all_iff dest: in_set_takeD in_set_dropD)

lemma zero_digit: "is_digit (CHR ''0'')" "list_all is_digit (replicate k (CHR ''0''))"
  by (simp_all add: is_digit_def list_all_iff)

lemma number_to_string_parts: "\<exists>sg ip fp xp. number_to_string m e = sg @ ip @ fp @ xp \<and> num_parts sg ip fp xp"
proof (cases "m = 0")
  case True
  have "number_to_string m e = [] @ ''0'' @ [] @ []" using True by (simp add: number_to_string_def)
  moreover have "num_parts [] ''0'' [] []" by (simp add: num_parts_def zero_digit)
  ultimately show ?thesis by blast
next
  case False
  obtain s z where sz: "strip_zeros (nat \<bar>m\<bar>) = (s, z)" by (cases "strip_zeros (nat \<bar>m\<bar>)")
  define sg where "sg = (if m < 0 then ''-'' else [])"
  define ds where "ds = digits_nat s"
  define k where "k = int (length ds)"
  define n where "n = k + e + int z"
  define ex where "ex = CHR ''e'' # (if 0 < n - 1 then ''+'' else ''-'') @ digits_nat (nat \<bar>n - 1\<bar>)"
  have eq: "number_to_string m e = sg @ (if k \<le> n \<and> n \<le> 21 then ds @ replicate (nat (n - k)) (CHR ''0'')
                 else if 0 < n \<and> n \<le> 21 then take (nat n) ds @ ''.'' @ drop (nat n) ds
                 else if -6 < n \<and> n \<le> 0 then ''0.'' @ replicate (nat (- n)) (CHR ''0'') @ ds
                 else if k = 1 then ds @ ex else take 1 ds @ ''.'' @ drop 1 ds @ ex)"
    using False sz by (simp add: number_to_string_def sg_def ds_def k_def n_def ex_def Let_def)
  have sg: "sg = [] \<or> sg = ''-''" by (simp add: sg_def)
  have ds: "ds \<noteq> []" "list_all is_digit ds" using digits_nat_digits[of s] by (simp_all add: ds_def)
  have exok: "\<exists>c dd. ex = CHR ''e'' # c # dd \<and> c \<in> {CHR ''+'', CHR ''-''} \<and> dd \<noteq> [] \<and> list_all is_digit dd"
    using digits_nat_digits[of "nat \<bar>n - 1\<bar>"] by (auto simp: ex_def)
  have td: "list_all is_digit (take j ds) \<and> list_all is_digit (drop j ds)" for j
    using list_all_take_drop[OF ds(2)] .
  consider (a) "k \<le> n \<and> n \<le> 21" | (b) "\<not> (k \<le> n \<and> n \<le> 21)" "0 < n \<and> n \<le> 21"
    | (c) "\<not> (k \<le> n \<and> n \<le> 21)" "\<not> (0 < n \<and> n \<le> 21)" "-6 < n \<and> n \<le> 0"
    | (d) "\<not> (k \<le> n \<and> n \<le> 21)" "\<not> (0 < n \<and> n \<le> 21)" "\<not> (-6 < n \<and> n \<le> 0)" "k = 1"
    | (e) "\<not> (k \<le> n \<and> n \<le> 21)" "\<not> (0 < n \<and> n \<le> 21)" "\<not> (-6 < n \<and> n \<le> 0)" "k \<noteq> 1"
    by blast
  then show ?thesis
  proof cases
    case a
    have "num_parts sg (ds @ replicate (nat (n - k)) (CHR ''0'')) [] []"
      using sg ds by (simp add: num_parts_def zero_digit)
    moreover have "number_to_string m e = sg @ (ds @ replicate (nat (n - k)) (CHR ''0'')) @ [] @ []"
      using eq a by simp
    ultimately show ?thesis by blast
  next
    case b
    then have "0 < nat n" "nat n < length ds" using k_def by linarith+
    then have "take (nat n) ds \<noteq> []" using ds(1) by simp
    then have "num_parts sg (take (nat n) ds) (CHR ''.'' # drop (nat n) ds) []"
      using sg td by (simp add: num_parts_def)
    moreover have "number_to_string m e = sg @ take (nat n) ds @ (CHR ''.'' # drop (nat n) ds) @ []"
      using eq b by simp
    ultimately show ?thesis by blast
  next
    case c
    have "num_parts sg ''0'' (CHR ''.'' # replicate (nat (- n)) (CHR ''0'') @ ds) []"
      using sg ds by (simp add: num_parts_def zero_digit)
    moreover have "number_to_string m e = sg @ ''0'' @ (CHR ''.'' # replicate (nat (- n)) (CHR ''0'') @ ds) @ []"
      using eq c by simp
    ultimately show ?thesis by blast
  next
    case d
    have "num_parts sg ds [] ex" using sg ds exok by (simp add: num_parts_def)
    moreover have "number_to_string m e = sg @ ds @ [] @ ex"
      using eq by (simp only: if_not_P[OF d(1)] if_not_P[OF d(2)] if_not_P[OF d(3)] if_P[OF d(4)] append_Nil)
    ultimately show ?thesis by blast
  next
    case e
    have "take 1 ds \<noteq> []" using ds(1) by simp
    then have "num_parts sg (take 1 ds) (CHR ''.'' # drop 1 ds) ex" using sg td exok by (simp add: num_parts_def)
    moreover have "number_to_string m e = sg @ take 1 ds @ (CHR ''.'' # drop 1 ds) @ ex" using eq e by simp
    ultimately show ?thesis by blast
  qed
qed


lemma num_parts_hd: "num_parts sg ip fp xp \<Longrightarrow> sg @ ip @ fp @ xp \<noteq> [] \<and>
    (hd (sg @ ip @ fp @ xp) = CHR ''-'' \<or> is_digit (hd (sg @ ip @ fp @ xp)))"
  by (cases ip) (auto simp: num_parts_def)

lemma num_parts_chars: "num_parts sg ip fp xp \<Longrightarrow> set (sg @ ip @ fp @ xp) \<subseteq> number_chars"
  by (auto simp: num_parts_def number_chars_def list_all_iff)

lemma number_first_char:
  "c = CHR ''-'' \<or> is_digit c \<Longrightarrow>
   c \<noteq> dquote \<and> c \<noteq> CHR ''t'' \<and> c \<noteq> CHR ''f'' \<and> c \<noteq> CHR ''n''"
  by (auto simp: is_digit_def)

lemma match_token_number:
  assumes "follow r"
  shows "match_token p (number_to_string m e @ r) = Some (number_to_string m e, r)"
proof -
  obtain sg ip fp xp where eq: "number_to_string m e = sg @ ip @ fp @ xp" and np: "num_parts sg ip fp xp"
    using number_to_string_parts by blast
  obtain c t where ct: "sg @ ip @ fp @ xp = c # t" and c: "c = CHR ''-'' \<or> is_digit c"
    using num_parts_hd[OF np] by (cases "sg @ ip @ fp @ xp") auto
  have c': "c \<noteq> dquote" "c \<noteq> CHR ''t''" "c \<noteq> CHR ''f''" "c \<noteq> CHR ''n''"
    using number_first_char[OF c] by simp_all
  have "match_string (c # t @ r) = None" using c' by (simp add: match_string_def)
  moreover have "match_literal p (c # t @ r) = None" using c' by (simp add: match_literal_def)
  moreover have "match_number ((sg @ ip @ fp @ xp) @ r) = Some (sg @ ip @ fp @ xp, r)"
    using match_number_parts[OF np assms] by simp
  then have "match_number (c # t @ r) = Some (c # t, r)" unfolding ct by simp
  ultimately show ?thesis using eq ct by (simp add: match_token_def)
qed

lemma token_class_number: "token_class (number_to_string m e) = ''number''"
proof -
  obtain sg ip fp xp where eq: "number_to_string m e = sg @ ip @ fp @ xp" and np: "num_parts sg ip fp xp"
    using number_to_string_parts by blast
  have chars: "set (number_to_string m e) \<subseteq> number_chars" using num_parts_chars[OF np] eq by simp
  have no: "CHR ''t'' \<notin> set (number_to_string m e)" "CHR ''f'' \<notin> set (number_to_string m e)"
    "CHR ''n'' \<notin> set (number_to_string m e)" "dquote \<notin> set (number_to_string m e)"
    using chars number_chars_letters by blast+
  have "take 1 (number_to_string m e) \<noteq> [dquote]"
    using no(4) by (cases "number_to_string m e") auto
  moreover have "\<not> str_contains ''true'' (number_to_string m e)"
    by (rule not_str_contains[OF _ no(1)]) simp
  moreover have "\<not> str_contains ''false'' (number_to_string m e)"
    by (rule not_str_contains[OF _ no(2)]) simp
  moreover have "\<not> str_contains ''null'' (number_to_string m e)"
    by (rule not_str_contains[OF _ no(3)]) simp
  ultimately show ?thesis by (simp add: token_class_def)
qed

lemma token_class_json_string:
  "token_class (escape_html (quote_json s)) = ''string''"
  "token_class (escape_html (quote_json s) @ '':'') = ''key''"
  by (simp_all add: token_class_def escape_quote_json)

lemma match_token_layout:
  assumes "layout_char c" shows "match_token p (c # r) = None"
proof -
  have c: "c \<noteq> dquote" "c \<noteq> CHR ''-''" "\<not> is_digit c"
    "c \<noteq> CHR ''t''" "c \<noteq> CHR ''f''" "c \<noteq> CHR ''n''"
    using assms by (auto simp: layout_char_def is_digit_def)
  have "match_string (c # r) = None" using c by (simp add: match_string_def)
  moreover have "match_literal p (c # r) = None" using c by (simp add: match_literal_def)
  moreover have "match_number (c # r) = None" using c by (simp add: match_number_def)
  ultimately show ?thesis by (simp add: match_token_def)
qed

lemma scan_layout:
  "list_all layout_char t \<Longrightarrow> scan p (t @ r) = t @ scan (if t = [] then p else Some (last t)) r"
proof (induction t arbitrary: p)
  case (Cons c t)
  then show ?case by (simp add: match_token_layout)
qed simp

lemma scan_follow: "follow r \<Longrightarrow> scan p r = scan q r"
  using follow_cases[of r] by (auto simp: match_token_layout layout_char_def)

lemma scan_token:
  "match_token p (m @ r) = Some (m, r) \<Longrightarrow> m \<noteq> [] \<Longrightarrow>
   scan p (m @ r) = render_segment (Span (token_class m) m) @ scan (Some (last m)) r"
  by (cases m) (simp_all add: highlight_token_def)


lemma render_append [simp]: "render (xs @ ys) = render xs @ render ys"
  by (simp add: render_def)

lemma follow_comma: "follow (CHR '','' # r)"
  by (simp add: follow_def is_js_space_def)

lemma boundary_space: "boundary_before (Some (CHR '' ''))"
  by (simp add: boundary_before_def is_word_char_def is_alnum_def is_digit_def)

lemma scan_join:
  assumes "list_all2 scan_ok ts sss" "ts \<noteq> []" "list_all layout_char sep" "sep \<noteq> []"
    "last sep = CHR '' ''" "hd sep = CHR '',''"
  shows "scan_ok (join sep ts) (join_segs (Text sep) sss)"
  using assms(1,2)
proof (induction ts sss rule: list_all2_induct)
  case Nil
  then show ?case by simp
next
  case (Cons t ts s sss)
  show ?case
  proof (cases ts)
    case Nil
    then have "sss = []" using Cons.hyps(2) by simp
    then show ?thesis using Cons.hyps(1) Nil by simp
  next
    case (Cons t' ts')
    then obtain s' sss' where sss: "sss = s' # sss'" using \<open>list_all2 scan_ok ts sss\<close>
      by (cases sss) auto
    have IH: "scan_ok (join sep ts) (join_segs (Text sep) sss)" using Cons.IH Cons by simp
    show ?thesis unfolding scan_ok_def
    proof (intro allI impI)
      fix p r assume p: "boundary_before p" and r: "follow r"
      obtain c sep' where sepc: "sep = c # sep'" "c = CHR '',''" using assms(4,6) by (cases sep) auto
      have f: "follow (sep @ join sep ts @ r)" using sepc follow_comma by simp
      have "scan p (t @ sep @ join sep ts @ r) = render s @ scan None (sep @ join sep ts @ r)"
        using \<open>scan_ok t s\<close> p f by (simp add: scan_ok_def)
      also have "\<dots> = render s @ sep @ scan (Some (CHR '' '')) (join sep ts @ r)"
        using scan_layout[OF assms(3)] assms(4,5) by simp
      also have "\<dots> = render s @ sep @ render (join_segs (Text sep) sss) @ scan None r"
        using IH boundary_space r by (simp add: scan_ok_def)
      finally show "scan p (join sep (t # ts) @ r) = render (join_segs (Text sep) (s # sss)) @ scan None r"
        using Cons sss by simp
    qed
  qed
qed


lemma escape_html_id: "CHR ''&'' \<notin> set s \<Longrightarrow> CHR ''<'' \<notin> set s \<Longrightarrow> CHR ''>'' \<notin> set s \<Longrightarrow> escape_html s = s"
  by (induction s) (auto simp: escape_char_def)

lemma escape_html_join: "escape_html (join sep xs) = join (escape_html sep) (map escape_html xs)"
  by (induction sep xs rule: join.induct) simp_all

lemma scan_ok_token:
  assumes "\<And>p r. boundary_before p \<Longrightarrow> follow r \<Longrightarrow> match_token p (m @ r) = Some (m, r)" "m \<noteq> []"
  shows "scan_ok m [Span (token_class m) m]"
  unfolding scan_ok_def
proof (intro allI impI)
  fix p r assume "boundary_before p" "follow r"
  then show "scan p (m @ r) = render [Span (token_class m) m] @ scan None r"
    using scan_token[OF assms(1) assms(2)] scan_follow by simp
qed

lemma scan_ok_literal:
  "scan_ok ''null'' [Span ''null'' ''null'']" "scan_ok ''true'' [Span ''boolean'' ''true'']"
  "scan_ok ''false'' [Span ''boolean'' ''false'']"
proof -
  have cls: "token_class ''null'' = ''null''" "token_class ''true'' = ''boolean''"
    "token_class ''false'' = ''boolean''" by (simp_all add: token_class_def)
  show "scan_ok ''null'' [Span ''null'' ''null'']"
    using scan_ok_token[of "''null''"] match_literal_word[of "''null''"] cls by simp
  show "scan_ok ''true'' [Span ''boolean'' ''true'']"
    using scan_ok_token[of "''true''"] match_literal_word[of "''true''"] cls by simp
  show "scan_ok ''false'' [Span ''boolean'' ''false'']"
    using scan_ok_token[of "''false''"] match_literal_word[of "''false''"] cls by simp
qed

lemma number_to_string_ne: "number_to_string m e \<noteq> []"
  using number_to_string_parts[of m e] num_parts_hd by fastforce

lemma scan_ok_number: "scan_ok (number_to_string m e) [Span ''number'' (number_to_string m e)]"
  using scan_ok_token[of "number_to_string m e"] match_token_number number_to_string_ne
    token_class_number by simp

lemma scan_ok_string: "scan_ok (escape_html (quote_json s)) [Span ''string'' (escape_html (quote_json s))]"
proof -
  have "match_token p (escape_html (quote_json s) @ r) = Some (escape_html (quote_json s), r)"
    if "follow r" for p r using match_string_value[OF that] by (simp add: match_token_def)
  moreover have "escape_html (quote_json s) \<noteq> []" by (simp add: escape_quote_json)
  ultimately show ?thesis using scan_ok_token token_class_json_string(1) by metis
qed

lemma scan_ok_member:
  assumes "scan_ok t ss"
  shows "scan_ok (escape_html (quote_json k) @ CHR '':'' # CHR '' '' # t)
           (Span ''key'' (escape_html (quote_json k) @ '':'') # Text '' '' # ss)"
  unfolding scan_ok_def
proof (intro allI impI)
  fix p r assume "boundary_before p" "follow r"
  let ?K = "escape_html (quote_json k) @ '':''"
  have m: "match_token p (?K @ CHR '' '' # t @ r) = Some (?K, CHR '' '' # t @ r)"
    using match_string_key[of k "CHR '' '' # t @ r"] by (simp add: match_token_def)
  have "scan p (?K @ CHR '' '' # t @ r) = render_segment (Span ''key'' ?K) @ scan (Some CHR '':'') (CHR '' '' # t @ r)"
    using scan_token[OF m] token_class_json_string(2) by simp
  also have "\<dots> = render_segment (Span ''key'' ?K) @ CHR '' '' # scan (Some CHR '' '') (t @ r)"
    by (simp add: match_token_layout layout_char_def)
  also have "\<dots> = render_segment (Span ''key'' ?K) @ CHR '' '' # render ss @ scan None r"
    using assms boundary_space \<open>follow r\<close> by (simp add: scan_ok_def)
  finally show "scan p ((escape_html (quote_json k) @ CHR '':'' # CHR '' '' # t) @ r) =
      render (Span ''key'' ?K # Text '' '' # ss) @ scan None r" by simp
qed

lemma follow_close:
  "list_all (\<lambda>c. c = CHR '' '') ind \<Longrightarrow> b \<in> {CHR '']'', CHR ''}''} \<Longrightarrow> follow (newline # ind @ b # r)"
proof -
  assume ind: "list_all (\<lambda>c. c = CHR '' '') ind" and b: "b \<in> {CHR '']'', CHR ''}''}"
  have "dropWhile is_js_space (ind @ b # r) = b # r"
    using ind b by (induction ind) (auto simp: is_js_space_def)
  then show ?thesis using b by (auto simp: follow_def is_js_space_def)
qed

lemma scan_ok_wrap:
  assumes "scan_ok J JS" "list_all layout_char opn" "opn \<noteq> []" "last opn = CHR '' ''"
    "list_all (\<lambda>c. c = CHR '' '') ind" "b \<in> {CHR '']'', CHR ''}''}"
  shows "scan_ok (opn @ J @ newline # ind @ [b]) (Text opn # JS @ [Text (newline # ind @ [b])])"
  unfolding scan_ok_def
proof (intro allI impI)
  fix p r assume "boundary_before p" "follow r"
  have lay: "list_all layout_char (newline # ind @ [b])"
    using assms(5,6) by (auto simp: layout_char_def list_all_iff)
  have "scan p (opn @ J @ newline # ind @ b # r) = opn @ scan (Some CHR '' '') (J @ newline # ind @ b # r)"
    using scan_layout[OF assms(2)] assms(3,4) by simp
  also have "\<dots> = opn @ render JS @ scan None (newline # ind @ b # r)"
    using assms(1) boundary_space follow_close[OF assms(5,6)] by (simp add: scan_ok_def)
  also have "\<dots> = opn @ render JS @ newline # ind @ b # scan (Some b) r"
    using scan_layout[OF lay, of None r] by simp
  also have "\<dots> = opn @ render JS @ newline # ind @ b # scan None r"
    using scan_follow[OF \<open>follow r\<close>] by metis
  finally show "scan p ((opn @ J @ newline # ind @ [b]) @ r) =
      render (Text opn # JS @ [Text (newline # ind @ [b])]) @ scan None r" by simp
qed

lemma scan_ok_layout: "list_all layout_char t \<Longrightarrow> t \<noteq> [] \<Longrightarrow> scan_ok t [Text t]"
  unfolding scan_ok_def using scan_layout scan_follow by simp

lemma json_ser_None: "json_ser ind x = None \<longleftrightarrow> x = JUndefined"
  by (cases x) (simp_all add: Let_def)

lemma json_segments_None: "json_segments ind x = None \<longleftrightarrow> x = JUndefined"
  by (cases x) (simp_all add: Let_def)


lemma list_all2_map_same: "(\<And>x. x \<in> set xs \<Longrightarrow> P (f x) (g x)) \<Longrightarrow> list_all2 P (map f xs) (map g xs)"
  by (induction xs) auto

lemma list_all2_concat_map:
  "(\<And>y. y \<in> set ys \<Longrightarrow> list_all2 P (map h (f y)) (g y)) \<Longrightarrow>
   list_all2 P (map h (concat (map f ys))) (concat (map g ys))"
  by (induction ys) (auto intro: list_all2_appendI)

lemma escape_number: "escape_html (number_to_string m e) = number_to_string m e"
proof -
  obtain sg ip fp xp where eq: "number_to_string m e = sg @ ip @ fp @ xp" and np: "num_parts sg ip fp xp"
    using number_to_string_parts by blast
  have "set (number_to_string m e) \<subseteq> number_chars" using num_parts_chars[OF np] eq by simp
  then show ?thesis by (intro escape_html_id) (auto simp: number_chars_def is_digit_def)
qed

lemma spaces_gap: "list_all (\<lambda>c. c = CHR '' '') ind \<Longrightarrow> list_all (\<lambda>c. c = CHR '' '') (ind @ gap)"
  by (simp add: gap_def list_all_iff)

lemma layout_spaces: "list_all (\<lambda>c. c = CHR '' '') ind \<Longrightarrow> list_all layout_char ind"
  by (auto simp: list_all_iff layout_char_def)

lemma escape_spaces: "list_all (\<lambda>c. c = CHR '' '') ind \<Longrightarrow> escape_html ind = ind"
  by (induction ind) (auto simp: escape_char_def)

lemma scan_ok_brackets:
  assumes "list_all2 scan_ok ts sss" "ts \<noteq> []" "list_all (\<lambda>c. c = CHR '' '') ind"
    "(opn, b) \<in> {(CHR ''['', CHR '']''), (CHR ''{'', CHR ''}'')}"
  shows "scan_ok (opn # newline # (ind @ gap) @ join (CHR '','' # newline # ind @ gap) ts @ newline # ind @ [b])
     (Text (opn # newline # ind @ gap) # join_segs (Text (CHR '','' # newline # ind @ gap)) sss @
      [Text (newline # ind @ [b])])"
proof -
  have sp: "list_all layout_char (ind @ gap)" using layout_spaces[OF spaces_gap[OF assms(3)]] .
  have lg: "last (ind @ gap) = CHR '' ''" by (simp add: gap_def)
  have j: "scan_ok (join (CHR '','' # newline # ind @ gap) ts) (join_segs (Text (CHR '','' # newline # ind @ gap)) sss)"
    using scan_join[OF assms(1,2)] sp lg by (simp add: layout_char_def gap_def)
  have L: "list_all layout_char (opn # newline # ind @ gap)" using sp assms(4) by (auto simp: layout_char_def)
  have N: "opn # newline # ind @ gap \<noteq> []" by simp
  have La: "last (opn # newline # ind @ gap) = CHR '' ''" using lg by (simp add: gap_def)
  have B: "b \<in> {CHR '']'', CHR ''}''}" using assms(4) by auto
  show ?thesis using scan_ok_wrap[OF j L N La assms(3) B] by simp
qed

lemma scan_json:
  "json_ser ind v = Some t \<Longrightarrow> json_segments ind v = Some ss \<Longrightarrow> list_all (\<lambda>c. c = CHR '' '') ind \<Longrightarrow>
   scan_ok (escape_html t) ss"
proof (induction ind v arbitrary: t ss rule: json_ser.induct)
  case (1 ind)
  then show ?case by simp
next
  case (2 ind)
  then show ?case using scan_ok_literal(1) by (auto simp: escape_char_def)
next
  case (3 ind b)
  then show ?case using scan_ok_literal(2,3) by (cases b) (auto simp: escape_char_def)
next
  case (4 ind x)
  then show ?case using scan_ok_literal(1) scan_ok_number
    by (cases x) (auto simp: json_number_def escape_number escape_char_def)
next
  case (5 ind s)
  then show ?case using scan_ok_string by auto
next
  case (6 ind xs)
  define ind' where "ind' = ind @ gap"
  define items where "items = map (\<lambda>x. case json_ser ind' x of None \<Rightarrow> ''null'' | Some t \<Rightarrow> t) xs"
  define segs where "segs = map (\<lambda>x. case json_segments ind' x of None \<Rightarrow> [Span ''null'' ''null'']
                                    | Some ss \<Rightarrow> ss) xs"
  have sp: "list_all (\<lambda>c. c = CHR '' '') ind'" using spaces_gap[OF "6.prems"(3)] by (simp add: ind'_def)
  have el: "scan_ok (escape_html (case json_ser ind' x of None \<Rightarrow> ''null'' | Some t \<Rightarrow> t))
              (case json_segments ind' x of None \<Rightarrow> [Span ''null'' ''null''] | Some ss \<Rightarrow> ss)"
    if x: "x \<in> set xs" for x
  proof (cases "x = JUndefined")
    case True
    then show ?thesis using scan_ok_literal(1) by (simp add: escape_char_def)
  next
    case False
    then obtain t' ss' where t': "json_ser ind' x = Some t'" and ss': "json_segments ind' x = Some ss'"
      using json_ser_None[of ind' x] json_segments_None[of ind' x] by auto
    have "scan_ok (escape_html t') ss'" using "6.IH"[OF x, of t' ss'] t' ss' sp by (simp add: ind'_def)
    then show ?thesis using t' ss' by simp
  qed
  have rel: "list_all2 scan_ok (map escape_html items) segs"
    unfolding items_def segs_def map_map comp_def by (rule list_all2_map_same) (rule el)
  show ?case
  proof (cases "xs = []")
    case True
    then show ?thesis using "6.prems"(1,2) scan_ok_layout[of "''[]''"] by (auto simp: layout_char_def escape_char_def)
  next
    case False
    have t: "t = CHR ''['' # newline # ind' @ join (CHR '','' # newline # ind') items @ newline # ind @ '']''"
      using "6.prems"(1) False by (simp add: items_def ind'_def Let_def)
    have ss: "ss = Text (CHR ''['' # newline # ind') # join_segs (Text (CHR '','' # newline # ind')) segs @
                [Text (newline # ind @ '']'')]"
      using "6.prems"(2) False by (simp add: segs_def ind'_def Let_def)
    have et: "escape_html t = CHR ''['' # newline # ind' @ join (CHR '','' # newline # ind') (map escape_html items) @
                newline # ind @ '']''"
      unfolding t using escape_spaces[OF sp] escape_spaces[OF "6.prems"(3)]
      by (simp add: escape_html_join escape_char_def)
    have "map escape_html items \<noteq> []" using False by (simp add: items_def)
    then show ?thesis unfolding et ss ind'_def
      using scan_ok_brackets[OF rel[unfolded ind'_def] _ "6.prems"(3), of "CHR ''[''" "CHR '']''"]
      by (simp add: ind'_def)
  qed
next
  case (7 ind kvs)
  define ind' where "ind' = ind @ gap"
  define f where "f = (\<lambda>(k, x). case json_ser ind' x of None \<Rightarrow> []
                            | Some t \<Rightarrow> [quote_json k @ '': '' @ t])"
  define g where "g = (\<lambda>(k, x). case json_segments ind' x of None \<Rightarrow> []
                            | Some ss \<Rightarrow> [Span ''key'' (escape_html (quote_json k) @ '':'') # Text '' '' # ss])"
  have sp: "list_all (\<lambda>c. c = CHR '' '') ind'" using spaces_gap[OF "7.prems"(3)] by (simp add: ind'_def)
  have el: "list_all2 scan_ok (map escape_html (f kx)) (g kx)" if kx: "kx \<in> set kvs" for kx
  proof -
    obtain k x where kx_eq: "kx = (k, x)" by (cases kx)
    show ?thesis
    proof (cases "x = JUndefined")
      case True
      then show ?thesis by (simp add: kx_eq f_def g_def)
    next
      case False
      then obtain t' ss' where t': "json_ser ind' x = Some t'" and ss': "json_segments ind' x = Some ss'"
        using json_ser_None[of ind' x] json_segments_None[of ind' x] by auto
      have "scan_ok (escape_html t') ss'"
        using "7.IH"[OF kx[unfolded kx_eq] refl, of t' ss'] t' ss' sp by (simp add: ind'_def)
      then have "scan_ok (escape_html (quote_json k) @ CHR '':'' # CHR '' '' # escape_html t')
           (Span ''key'' (escape_html (quote_json k) @ '':'') # Text '' '' # ss')"
        by (rule scan_ok_member)
      then show ?thesis using t' ss' by (simp add: kx_eq f_def g_def escape_char_def)
    qed
  qed
  have rel: "list_all2 scan_ok (map escape_html (concat (map f kvs))) (concat (map g kvs))"
    by (rule list_all2_concat_map) (rule el)
  have len: "concat (map f kvs) = [] \<longleftrightarrow> concat (map g kvs) = []"
    using list_all2_lengthD[OF rel] by (metis length_0_conv length_map)
  show ?case
  proof (cases "concat (map f kvs) = []")
    case True
    then have "t = ''{}''" "ss = [Text ''{}'']" using "7.prems"(1,2) len
      by (simp_all add: f_def g_def ind'_def Let_def del: concat_eq_Nil_conv)
    then show ?thesis using scan_ok_layout[of "''{}''"] by (auto simp: layout_char_def escape_char_def)
  next
    case False
    then have False': "concat (map g kvs) \<noteq> []" using len by blast
    have t: "t = CHR ''{'' # newline # ind' @ join (CHR '','' # newline # ind') (concat (map f kvs)) @
                newline # ind @ ''}''"
      using "7.prems"(1) False by (simp add: f_def ind'_def Let_def del: concat_eq_Nil_conv)
    have ss: "ss = Text (CHR ''{'' # newline # ind') # join_segs (Text (CHR '','' # newline # ind')) (concat (map g kvs)) @
                [Text (newline # ind @ ''}'')]"
      using "7.prems"(2) False' by (simp add: g_def ind'_def Let_def del: concat_eq_Nil_conv)
    have et: "escape_html t = CHR ''{'' # newline # ind' @
                join (CHR '','' # newline # ind') (map escape_html (concat (map f kvs))) @ newline # ind @ ''}''"
      unfolding t using escape_spaces[OF sp] escape_spaces[OF "7.prems"(3)]
      by (simp add: escape_html_join escape_char_def)
    have "map escape_html (concat (map f kvs)) \<noteq> []" using False by simp
    then show ?thesis unfolding et ss ind'_def
      using scan_ok_brackets[OF rel[unfolded ind'_def] _ "7.prems"(3), of "CHR ''{''" "CHR ''}''"]
      by (simp add: ind'_def)
  qed
qed


lemma highlight_segments:
  assumes "json_segments [] v = Some ss"
  shows "highlight v = Inr (render ss)"
proof -
  have "v \<noteq> JUndefined" using assms by auto
  then obtain t where t: "json_ser [] v = Some t" using json_ser_None[of "[]" v] by auto
  have "scan_ok (escape_html t) ss" using scan_json[OF t assms] by simp
  moreover have "boundary_before None" "follow []" by (simp_all add: boundary_before_def follow_def)
  ultimately have "scan None (escape_html t @ []) = render ss @ scan None []"
    unfolding scan_ok_def by blast
  then show ?thesis using t by (simp add: highlight_def json_stringify_def syntaxHighlight_def)
qed

lemma highlight_JUndefined: "highlight JUndefined = Inl TypeError"
  by (simp add: highlight_def json_stringify_def)

definition spec_example :: jsval where
  "spec_example = JObject [(''a'', JNumber (Finite 1 0)), (''b'', JString ''x<y''), (''c'', JNull),
     (''d'', JBool True)]"

lemmas json_eval = json_number_def number_to_string_def digits_nat.simps strip_zeros.simps
  hex_digit_def quote_json_def json_escape_char_def escape_char_def gap_def replicate_numeral

subsection \<open>Properties\<close>

text \<open>
  C17. \<open>highlight\<close> implements its contract: for every value it either throws the
  \<open>TypeError\<close> (exactly for \<open>undefined\<close>, which has no serialization) or returns the
  rendering of the pretty-printed JSON as classified tokens, each key with its colon, string,
  number, boolean and null in a span of its kind and the layout between them unchanged.
\<close>

theorem highlight_refines:
  "highlight v = (case json_segments [] v of None \<Rightarrow> Inl TypeError | Some ss \<Rightarrow> Inr (render ss))"
proof (cases "json_segments [] v")
  case None
  then have "v = JUndefined" using json_segments_None by blast
  then show ?thesis using highlight_JUndefined by simp
next
  case (Some ss)
  then show ?thesis using highlight_segments by simp
qed

end
