(* ===== verification/JsonParse.thy ===== *)
theory JsonParse
  imports Stringify "HOL-Library.AList"
begin

text \<open>
  \<open>JSON.parse\<close> (ECMAScript, without a reviver), which the specification names as the
  way to read back what \<open>highlight\<close> shows: the JSON text grammar with its whitespace,
  string escapes and number syntax, and the object it builds. A property defined twice
  keeps its first position and its last value (\<open>CreateDataProperty\<close>), and the object's
  own keys come in property order: array indices ascending, then the other keys in
  creation order. A number literal is read as the exact decimal it denotes, normalized
  to the shortest form \<open>Finite s k\<close> with \<open>s\<close> not divisible by ten; for the literals
  \<open>JSON.stringify\<close> writes (the shortest decimal of a double) that is the double
  \<open>JSON.parse\<close> returns. A \<open>\u\<close> escape above \<open>0xFF\<close> has no value in the model's
  8-bit strings and is reported as \<open>Unrepresentable\<close>.
\<close>

datatype parse_error = SyntaxError | Unrepresentable

subsection \<open>Whitespace, digits and numbers\<close>

definition json_ws :: "char \<Rightarrow> bool" where
  "json_ws c \<longleftrightarrow> c = CHR '' '' \<or> c = CHR 0x09 \<or> c = CHR 0x0A \<or> c = CHR 0x0D"

definition skip_ws :: "string \<Rightarrow> string" where
  "skip_ws s = dropWhile json_ws s"

definition digit_value :: "char \<Rightarrow> nat" where
  "digit_value c = of_char c - 48"

definition nat_of_digits :: "string \<Rightarrow> nat" where
  "nat_of_digits ds = foldl (\<lambda>n c. 10 * n + digit_value c) 0 ds"

text \<open>The value \<open>(-1)^neg \<cdot> n \<cdot> 10^x\<close> as a number, trailing zeros moved to the exponent.\<close>

definition num_of_decimal :: "bool \<Rightarrow> nat \<Rightarrow> int \<Rightarrow> jsnum" where
  "num_of_decimal neg n x = (if n = 0 then Finite 0 0 else
     (case strip_zeros n of (s, z) \<Rightarrow> Finite (if neg then - int s else int s) (x + int z)))"

text \<open>\<open>int = 0 | [1-9] digit*\<close>\<close>

definition parse_int_part :: "string \<Rightarrow> (string \<times> string) option" where
  "parse_int_part s = (let ds = takeWhile is_digit s in
     if ds = [] \<or> (hd ds = CHR ''0'' \<and> tl ds \<noteq> []) then None
     else Some (ds, dropWhile is_digit s))"

text \<open>\<open>frac = ("." digit+)?\<close>\<close>

definition parse_fraction :: "string \<Rightarrow> (string \<times> string) option" where
  "parse_fraction s = (if take 1 s = ''.'' then
     (let ds = takeWhile is_digit (drop 1 s) in
      if ds = [] then None else Some (ds, dropWhile is_digit (drop 1 s)))
   else Some ([], s))"

text \<open>\<open>exp = ([eE] [+-]? digit+)?\<close>\<close>

definition parse_exponent :: "string \<Rightarrow> (int \<times> string) option" where
  "parse_exponent s = (if take 1 s = ''e'' \<or> take 1 s = ''E'' then
     (let t = drop 1 s; neg = (take 1 t = ''-'');
          t' = (if take 1 t = ''-'' \<or> take 1 t = ''+'' then drop 1 t else t);
          ds = takeWhile is_digit t'
      in if ds = [] then None
         else Some (if neg then - int (nat_of_digits ds) else int (nat_of_digits ds),
                    dropWhile is_digit t'))
   else Some (0, s))"

definition parse_number :: "string \<Rightarrow> (jsnum \<times> string) option" where
  "parse_number s = (let neg = (take 1 s = ''-''); s1 = (if neg then drop 1 s else s) in
     case parse_int_part s1 of None \<Rightarrow> None | Some (ip, s2) \<Rightarrow>
     (case parse_fraction s2 of None \<Rightarrow> None | Some (fp, s3) \<Rightarrow>
     (case parse_exponent s3 of None \<Rightarrow> None | Some (x, s4) \<Rightarrow>
       Some (num_of_decimal neg (nat_of_digits (ip @ fp)) (x - int (length fp)), s4))))"

subsection \<open>Strings\<close>

definition hex_value :: "char \<Rightarrow> nat option" where
  "hex_value c = (let n = (of_char c :: nat) in
     if 48 \<le> n \<and> n \<le> 57 then Some (n - 48)
     else if 97 \<le> n \<and> n \<le> 102 then Some (n - 87)
     else if 65 \<le> n \<and> n \<le> 70 then Some (n - 55) else None)"

definition hex4_value :: "string \<Rightarrow> nat option" where
  "hex4_value cs = (if length cs = 4 \<and> list_all (\<lambda>c. hex_value c \<noteq> None) cs
     then Some (foldl (\<lambda>n c. 16 * n + the (hex_value c)) 0 cs) else None)"

text \<open>\<open>\" \\ \/ \b \f \n \r \t\<close>\<close>

definition simple_escape :: "char \<Rightarrow> char option" where
  "simple_escape c = (if c = dquote then Some dquote else if c = backslash then Some backslash
     else if c = CHR ''/'' then Some (CHR ''/'') else if c = CHR ''b'' then Some (CHR 0x08)
     else if c = CHR ''f'' then Some (CHR 0x0C) else if c = CHR ''n'' then Some (CHR 0x0A)
     else if c = CHR ''r'' then Some (CHR 0x0D) else if c = CHR ''t'' then Some (CHR 0x09)
     else None)"

text \<open>
  The characters of a string literal after its opening quote, up to the closing quote;
  a control character must be escaped.
\<close>

function parse_chars :: "string \<Rightarrow> string \<Rightarrow> parse_error + (string \<times> string)" where
  "parse_chars acc [] = Inl SyntaxError"
| "parse_chars acc (c # r) =
     (if c = dquote then Inr (acc, r)
      else if c = backslash then
        (case r of [] \<Rightarrow> Inl SyntaxError
         | d # r' \<Rightarrow>
            if d = CHR ''u'' then
              (case hex4_value (take 4 r') of None \<Rightarrow> Inl SyntaxError
               | Some n \<Rightarrow> if n < 256 then parse_chars (acc @ [char_of n]) (drop 4 r')
                          else Inl Unrepresentable)
            else (case simple_escape d of None \<Rightarrow> Inl SyntaxError
                  | Some e \<Rightarrow> parse_chars (acc @ [e]) r'))
      else if (of_char c :: nat) < 32 then Inl SyntaxError
      else parse_chars (acc @ [c]) r)"
  by pat_completeness auto
termination by (relation "measure (\<lambda>(acc, s). length s)") auto

declare parse_chars.simps(2) [simp del]


lemma parse_chars_quote [simp]: "parse_chars acc (dquote # r) = Inr (acc, r)"
  by (simp add: parse_chars.simps(2))

lemma parse_chars_u [simp]:
  "parse_chars acc (backslash # CHR ''u'' # r) = (case hex4_value (take 4 r) of None \<Rightarrow> Inl SyntaxError
     | Some n \<Rightarrow> if n < 256 then parse_chars (acc @ [char_of n]) (drop 4 r) else Inl Unrepresentable)"
  by (simp add: parse_chars.simps(2))

lemma parse_chars_escape [simp]:
  "d \<noteq> CHR ''u'' \<Longrightarrow> parse_chars acc (backslash # d # r) = (case simple_escape d of None \<Rightarrow> Inl SyntaxError
     | Some e \<Rightarrow> parse_chars (acc @ [e]) r)"
  by (simp add: parse_chars.simps(2))

lemma parse_chars_backslash_end [simp]: "parse_chars acc [backslash] = Inl SyntaxError"
  by (simp add: parse_chars.simps(2))

lemma parse_chars_plain:
  "c \<noteq> dquote \<Longrightarrow> c \<noteq> backslash \<Longrightarrow>
   parse_chars acc (c # r) = (if (of_char c :: nat) < 32 then Inl SyntaxError else parse_chars (acc @ [c]) r)"
  by (simp add: parse_chars.simps(2))

lemma parse_chars_shorter: "parse_chars acc s = Inr (k, rest) \<Longrightarrow> length rest < length s"
proof (induction acc s rule: parse_chars.induct)
  case (2 acc c r)
  consider "c = dquote" | "c = backslash" | "c \<noteq> dquote" "c \<noteq> backslash" by blast
  then show ?case
  proof cases
    case 1 then show ?thesis using "2.prems" by simp
  next
    case 2
    show ?thesis
    proof (cases r)
      case Nil then show ?thesis using "2.prems" \<open>c = backslash\<close> by simp
    next
      case (Cons d r')
      show ?thesis
      proof (cases "d = CHR ''u''")
        case True
        then obtain n where "hex4_value (take 4 r') = Some n" "n < 256"
            "parse_chars (acc @ [char_of n]) (drop 4 r') = Inr (k, rest)"
          using "2.prems" \<open>c = backslash\<close> Cons by (auto split: option.splits if_splits)
        then show ?thesis using "2.IH"(1) \<open>c = backslash\<close> Cons True by fastforce
      next
        case False
        then obtain e where "simple_escape d = Some e" "parse_chars (acc @ [e]) r' = Inr (k, rest)"
          using "2.prems" \<open>c = backslash\<close> Cons by (auto split: option.splits)
        then show ?thesis using "2.IH"(2) \<open>c = backslash\<close> Cons False by fastforce
      qed
    qed
  next
    case 3
    then have "parse_chars (acc @ [c]) r = Inr (k, rest)" "\<not> (of_char c :: nat) < 32"
      using "2.prems" by (simp_all add: parse_chars_plain split: if_splits)
    then show ?thesis using "2.IH"(3) 3 by fastforce
  qed
qed simp


lemma skip_ws_le: "length (skip_ws s) \<le> length s"
  by (simp add: skip_ws_def length_dropWhile_le)

lemma skip_ws_Cons: "skip_ws s = c # r \<Longrightarrow> length r < length s"
  using skip_ws_le[of s] by simp

subsection \<open>Objects\<close>

text \<open>
  \<open>CanonicalNumericIndexString\<close> restricted to array indices: the decimal form of an
  integer below \<open>2^32 - 1\<close>, without leading zeros.
\<close>

definition is_array_index :: "string \<Rightarrow> bool" where
  "is_array_index k \<longleftrightarrow> k \<noteq> [] \<and> list_all is_digit k \<and> (k = ''0'' \<or> hd k \<noteq> CHR ''0'') \<and>
     nat_of_digits k < 2 ^ 32 - 1"

text \<open>\<open>OrdinaryOwnPropertyKeys\<close>: array indices ascending, then the others in creation order.\<close>

definition prop_order :: "(string \<times> 'a) list \<Rightarrow> (string \<times> 'a) list" where
  "prop_order kvs = sort_key (\<lambda>(k, _). nat_of_digits k) (filter (\<lambda>(k, _). is_array_index k) kvs) @
     filter (\<lambda>(k, _). \<not> is_array_index k) kvs"

subsection \<open>Values\<close>

text \<open>
  Recursive descent over the grammar \<open>value\<close>, \<open>elements\<close>, \<open>members\<close>. After a nested
  value the rest is checked to be shorter than the input, which makes the recursion
  well-founded; \<open>parse_value_shorter\<close> shows the check always passes.
\<close>

function parse_value :: "string \<Rightarrow> parse_error + (jsval \<times> string)"
and parse_elements :: "jsval list \<Rightarrow> string \<Rightarrow> parse_error + (jsval \<times> string)"
and parse_members :: "(string \<times> jsval) list \<Rightarrow> string \<Rightarrow> parse_error + (jsval \<times> string)" where
  "parse_value s = (case skip_ws s of [] \<Rightarrow> Inl SyntaxError
     | c # r \<Rightarrow>
       if c = CHR ''['' then
         (case skip_ws r of [] \<Rightarrow> Inl SyntaxError
          | d # r' \<Rightarrow> if d = CHR '']'' then Inr (JArray [], r') else parse_elements [] r)
       else if c = CHR ''{'' then
         (case skip_ws r of [] \<Rightarrow> Inl SyntaxError
          | d # r' \<Rightarrow> if d = CHR ''}'' then Inr (JObject [], r') else parse_members [] r)
       else if c = dquote then
         (case parse_chars [] r of Inl err \<Rightarrow> Inl err | Inr (str, r') \<Rightarrow> Inr (JString str, r'))
       else if take 4 (c # r) = ''true'' then Inr (JBool True, drop 3 r)
       else if take 5 (c # r) = ''false'' then Inr (JBool False, drop 4 r)
       else if take 4 (c # r) = ''null'' then Inr (JNull, drop 3 r)
       else (case parse_number (c # r) of None \<Rightarrow> Inl SyntaxError
             | Some (x, r') \<Rightarrow> Inr (JNumber x, r')))"
| "parse_elements acc s = (case parse_value s of Inl err \<Rightarrow> Inl err
     | Inr (v, r) \<Rightarrow>
       if length s \<le> length r then Inl SyntaxError
       else (case skip_ws r of [] \<Rightarrow> Inl SyntaxError
             | d # r' \<Rightarrow> if d = CHR '','' then parse_elements (acc @ [v]) r'
                        else if d = CHR '']'' then Inr (JArray (acc @ [v]), r')
                        else Inl SyntaxError))"
| "parse_members acc s = (case skip_ws s of [] \<Rightarrow> Inl SyntaxError
     | c # r \<Rightarrow>
       if c \<noteq> dquote then Inl SyntaxError
       else (case parse_chars [] r of Inl err \<Rightarrow> Inl err
         | Inr (k, r1) \<Rightarrow> (case skip_ws r1 of [] \<Rightarrow> Inl SyntaxError
           | d # r2 \<Rightarrow> if d \<noteq> CHR '':'' then Inl SyntaxError
             else (case parse_value r2 of Inl err \<Rightarrow> Inl err
               | Inr (v, r3) \<Rightarrow>
                 if length r2 \<le> length r3 then Inl SyntaxError
                 else (case skip_ws r3 of [] \<Rightarrow> Inl SyntaxError
                   | e # r4 \<Rightarrow>
                     if e = CHR '','' then parse_members (AList.update k v acc) r4
                     else if e = CHR ''}'' then Inr (JObject (prop_order (AList.update k v acc)), r4)
                     else Inl SyntaxError)))))"
  by pat_completeness auto
termination
  by (relation "measure (\<lambda>x. case x of Inl s \<Rightarrow> 2 * length s
                                  | Inr (Inl (acc, s)) \<Rightarrow> 2 * length s + 1
                                  | Inr (Inr (acc, s)) \<Rightarrow> 2 * length s + 1)")
     (auto dest!: skip_ws_Cons parse_chars_shorter)

declare parse_value.simps [simp del] parse_elements.simps [simp del] parse_members.simps [simp del]

definition json_parse :: "string \<Rightarrow> parse_error + jsval" where
  "json_parse s = (case parse_value s of Inl err \<Rightarrow> Inl err
     | Inr (v, r) \<Rightarrow> if skip_ws r = [] then Inr v else Inl SyntaxError)"

subsection \<open>What a parse of a serialization returns\<close>

text \<open>The number \<open>m \<cdot> 10^e\<close> in the form \<open>JSON.parse\<close> gives it.\<close>

definition num_normal :: "int \<Rightarrow> int \<Rightarrow> jsnum" where
  "num_normal m e = num_of_decimal (m < 0) (nat \<bar>m\<bar>) e"

text \<open>
  The value \<open>JSON.parse(JSON.stringify(v))\<close> denotes: non-finite numbers become \<open>null\<close>,
  \<open>undefined\<close> array elements \<open>null\<close>, properties whose value is \<open>undefined\<close> are dropped.
\<close>

fun json_normal :: "jsval \<Rightarrow> jsval" where
  "json_normal (JNumber (Finite m e)) = JNumber (num_normal m e)"
| "json_normal (JNumber x) = JNull"
| "json_normal (JArray xs) = JArray (map (\<lambda>x. if x = JUndefined then JNull else json_normal x) xs)"
| "json_normal (JObject kvs) =
     JObject (map (\<lambda>(k, x). (k, json_normal x)) (filter (\<lambda>(k, x). x \<noteq> JUndefined) kvs))"
| "json_normal v = v"

text \<open>
  What holds of every JavaScript value the model stands for: the own properties of an
  object have distinct keys and come in property order.
\<close>

fun js_wf :: "jsval \<Rightarrow> bool" where
  "js_wf (JArray xs) = (\<forall>x \<in> set xs. js_wf x)"
| "js_wf (JObject kvs) = (distinct (map fst kvs) \<and> prop_order kvs = kvs \<and> (\<forall>x \<in> snd ` set kvs. js_wf x))"
| "js_wf v = True"

text \<open>What may follow a value in the serialization: nothing, a comma or a line break.\<close>

definition ends_value :: "string \<Rightarrow> bool" where
  "ends_value r \<longleftrightarrow> (case r of [] \<Rightarrow> True | c # _ \<Rightarrow> c = CHR '','' \<or> c = newline)"

text \<open>
  A JSON value: no \<open>undefined\<close>, finite numbers in the normal form \<open>JSON.parse\<close> builds, and
  objects whose own properties have distinct keys in property order.
\<close>

fun json_value :: "jsval \<Rightarrow> bool" where
  "json_value JUndefined = False"
| "json_value (JNumber (Finite m e)) = (num_normal m e = Finite m e)"
| "json_value (JNumber x) = False"
| "json_value (JArray xs) = (\<forall>x \<in> set xs. json_value x)"
| "json_value (JObject kvs) =
     (distinct (map fst kvs) \<and> prop_order kvs = kvs \<and> (\<forall>x \<in> snd ` set kvs. json_value x))"
| "json_value v = True"

lemmas json_parse_eval = json_parse_def parse_value.simps parse_elements.simps parse_members.simps
  parse_chars.simps skip_ws_def json_ws_def parse_number_def parse_int_part_def parse_fraction_def
  parse_exponent_def nat_of_digits_def digit_value_def num_of_decimal_def strip_zeros.simps is_digit_def
  prop_order_def is_array_index_def hex4_value_def hex_value_def simple_escape_def


subsection \<open>Reading back what \<open>QuoteJSONString\<close> writes\<close>

lemma hex_value_digit: "d < 16 \<Longrightarrow> hex_value (hex_digit d) = Some d"
  by (auto simp: hex_digit_def hex_value_def less_Suc_eq numeral_eq_Suc)

lemma of_char_inj: "(of_char c :: nat) = of_char d \<Longrightarrow> c = d"
  by (metis char_of_char)

lemma hex4_escape:
  assumes "(n::nat) < 32"
  shows "hex4_value [CHR ''0'', CHR ''0'', hex_digit (n div 16), hex_digit (n mod 16)] = Some n"
proof -
  have "n div 16 < 16" "n mod 16 < 16" using assms by simp_all
  then have "hex_value (hex_digit (n div 16)) = Some (n div 16)" "hex_value (hex_digit (n mod 16)) = Some (n mod 16)"
    by (simp_all add: hex_value_digit)
  moreover have "hex_value (CHR ''0'') = Some 0" by (simp add: hex_value_def)
  ultimately show ?thesis by (simp add: hex4_value_def)
qed


lemma of_char_code:
  "(of_char c :: nat) = 8 \<Longrightarrow> c = CHR 0x08" "(of_char c :: nat) = 9 \<Longrightarrow> c = CHR 0x09"
  "(of_char c :: nat) = 10 \<Longrightarrow> c = CHR 0x0A" "(of_char c :: nat) = 12 \<Longrightarrow> c = CHR 0x0C"
  "(of_char c :: nat) = 13 \<Longrightarrow> c = CHR 0x0D"
  by (rule of_char_inj; simp)+

lemma parse_escape_char: "parse_chars acc (json_escape_char c @ rest) = parse_chars (acc @ [c]) rest"
proof -
  consider "(of_char c :: nat) \<in> {8, 9, 10, 12, 13}"
    | "(of_char c :: nat) \<notin> {8, 9, 10, 12, 13}" "c = dquote \<or> c = backslash"
    | "(of_char c :: nat) \<notin> {8, 9, 10, 12, 13}" "c \<noteq> dquote" "c \<noteq> backslash" "(of_char c :: nat) < 32"
    | "c \<noteq> dquote" "c \<noteq> backslash" "\<not> (of_char c :: nat) < 32"
    by force
  then show ?thesis
  proof cases
    case 1
    then show ?thesis using of_char_code[of c]
      by (auto simp: json_escape_char_def simple_escape_def)
  next
    case 2
    then show ?thesis by (auto simp: json_escape_char_def simple_escape_def)
  next
    case 3
    then show ?thesis
      by (simp add: json_escape_char_def Let_def hex4_escape)
  next
    case 4
    moreover have "(of_char c :: nat) \<notin> {8, 9, 10, 12, 13}" using 4 by auto
    ultimately show ?thesis by (simp add: json_escape_char_def Let_def parse_chars_plain)
  qed
qed

lemma parse_chars_json:
  "parse_chars acc (concat (map json_escape_char s) @ dquote # rest) = Inr (acc @ s, rest)"
  by (induction s arbitrary: acc) (simp_all add: parse_escape_char)

lemma parse_quote_json: "parse_chars [] (tl (quote_json s) @ rest) = Inr (s, rest)"
  by (simp add: quote_json_def parse_chars_json)

subsection \<open>Reading back what \<open>Number::toString\<close> writes\<close>

lemma nat_of_digits_append:
  "nat_of_digits (xs @ ys) = nat_of_digits xs * 10 ^ length ys + nat_of_digits ys"
proof (induction ys rule: rev_induct)
  case (snoc y ys)
  then show ?case by (simp add: nat_of_digits_def algebra_simps)
qed (simp add: nat_of_digits_def)

lemma nat_of_digits_simps [simp]:
  "nat_of_digits [] = 0" "nat_of_digits [c] = digit_value c"
  by (simp_all add: nat_of_digits_def)

lemma nat_of_digits_Cons: "nat_of_digits (c # ys) = digit_value c * 10 ^ length ys + nat_of_digits ys"
  using nat_of_digits_append[of "[c]" ys] by simp

lemma nat_of_digits_zeros [simp]: "nat_of_digits (replicate k (CHR ''0'')) = 0"
  by (induction k) (simp_all add: nat_of_digits_Cons digit_value_def)

lemma digit_value_hex: "d < 10 \<Longrightarrow> digit_value (hex_digit d) = d"
  by (auto simp: hex_digit_def digit_value_def less_Suc_eq numeral_eq_Suc)

lemma nat_of_digits_nat [simp]: "nat_of_digits (digits_nat n) = n"
proof (induction n rule: digits_nat.induct)
  case (1 n)
  then show ?case
    by (simp add: digits_nat.simps[of n] nat_of_digits_append digit_value_hex)
qed

lemma hex_digit_zero: "d < 10 \<Longrightarrow> hex_digit d = CHR ''0'' \<longleftrightarrow> d = 0"
  by (auto simp: hex_digit_def less_Suc_eq numeral_eq_Suc)

lemma digits_nat_hd: "n \<noteq> 0 \<Longrightarrow> hd (digits_nat n) \<noteq> CHR ''0''"
proof (induction n rule: digits_nat.induct)
  case (1 n)
  show ?case
  proof (cases "n < 10")
    case True then show ?thesis using "1.prems" hex_digit_zero[of n] by (simp add: digits_nat.simps[of n])
  next
    case False
    then have "n div 10 \<noteq> 0" by simp
    then show ?thesis using "1.IH" False digits_nat_digits[of "n div 10"]
      by (simp add: digits_nat.simps[of n])
  qed
qed

lemma strip_zeros_prop: "strip_zeros n = (s, z) \<Longrightarrow> n = s * 10 ^ z \<and> (n \<noteq> 0 \<longrightarrow> s \<noteq> 0 \<and> \<not> 10 dvd s)"
proof (induction n arbitrary: s z rule: strip_zeros.induct)
  case (1 n)
  show ?case
  proof (cases "n \<noteq> 0 \<and> n mod 10 = 0")
    case True
    obtain s' z' where sz: "strip_zeros (n div 10) = (s', z')" by (cases "strip_zeros (n div 10)")
    then have "s = s'" "z = Suc z'" using "1.prems" True by (simp_all add: strip_zeros.simps[of n])
    moreover have "n div 10 = s' * 10 ^ z' \<and> (n div 10 \<noteq> 0 \<longrightarrow> s' \<noteq> 0 \<and> \<not> 10 dvd s')"
      using "1.IH"[OF True sz] .
    ultimately show ?thesis using True by (auto simp: dvd_eq_mod_eq_0)
  next
    case False
    then show ?thesis using "1.prems" by (auto simp: strip_zeros.simps[of n] dvd_eq_mod_eq_0)
  qed
qed

lemma strip_zeros_shift: "s \<noteq> 0 \<Longrightarrow> \<not> 10 dvd s \<Longrightarrow> strip_zeros (s * 10 ^ j) = (s, j)"
proof (induction j)
  case 0
  then show ?case by (simp add: strip_zeros.simps[of s] dvd_eq_mod_eq_0)
next
  case (Suc j)
  have "s * 10 ^ Suc j \<noteq> 0 \<and> s * 10 ^ Suc j mod 10 = 0" using Suc.prems by simp
  then have "strip_zeros (s * 10 ^ Suc j) =
      (case strip_zeros (s * 10 ^ Suc j div 10) of (a, z) \<Rightarrow> (a, Suc z))"
    by (subst strip_zeros.simps) (simp only: not_False_eq_True simp_thms if_True)
  moreover have "s * 10 ^ Suc j div 10 = s * 10 ^ j" by simp
  ultimately show ?case using Suc by simp
qed

lemma num_of_decimal_shift:
  "s \<noteq> 0 \<Longrightarrow> \<not> 10 dvd s \<Longrightarrow>
   num_of_decimal neg (s * 10 ^ j) x = Finite (if neg then - int s else int s) (x + int j)"
  by (simp add: num_of_decimal_def strip_zeros_shift)


lemma not_digit_end: "t = [] \<or> hd t \<notin> number_chars \<Longrightarrow> t = [] \<or> \<not> is_digit (hd t)"
  by (auto simp: number_chars_def)

lemma parse_int_part_digits:
  "list_all is_digit ip \<Longrightarrow> ip \<noteq> [] \<Longrightarrow> ip = ''0'' \<or> hd ip \<noteq> CHR ''0'' \<Longrightarrow>
   t = [] \<or> \<not> is_digit (hd t) \<Longrightarrow> parse_int_part (ip @ t) = Some (ip, t)"
  using digits_split[of ip t] by (cases ip) (auto simp: parse_int_part_def)

lemma parse_fraction_none: "take 1 t \<noteq> ''.'' \<Longrightarrow> parse_fraction t = Some ([], t)"
  by (simp add: parse_fraction_def)

lemma parse_fraction_digits:
  "list_all is_digit fds \<Longrightarrow> fds \<noteq> [] \<Longrightarrow> t = [] \<or> \<not> is_digit (hd t) \<Longrightarrow>
   parse_fraction (CHR ''.'' # fds @ t) = Some (fds, t)"
  using digits_split[of fds t] by (simp add: parse_fraction_def)

lemma parse_exponent_none: "take 1 t \<noteq> ''e'' \<Longrightarrow> take 1 t \<noteq> ''E'' \<Longrightarrow> parse_exponent t = Some (0, t)"
  by (simp add: parse_exponent_def)

lemma parse_exponent_digits:
  assumes "c = CHR ''+'' \<or> c = CHR ''-''" "list_all is_digit xds" "xds \<noteq> []" "t = [] \<or> \<not> is_digit (hd t)"
  shows "parse_exponent (CHR ''e'' # c # xds @ t) =
    Some (if c = CHR ''-'' then - int (nat_of_digits xds) else int (nat_of_digits xds), t)"
proof -
  have "takeWhile is_digit (xds @ t) = xds" "dropWhile is_digit (xds @ t) = t"
    using digits_split[of xds t] assms(2,4) by simp_all
  then show ?thesis using assms(1,3) by (auto simp: parse_exponent_def)
qed

lemma parse_number_shape:
  assumes "list_all is_digit ip" "ip \<noteq> []" "ip = ''0'' \<or> hd ip \<noteq> CHR ''0''"
    and "rest = [] \<or> \<not> is_digit (hd rest)"
    and "parse_fraction rest = Some (fds, t)" "parse_exponent t = Some (x, r)"
  shows "parse_number ((if neg then ''-'' else []) @ ip @ rest) =
    Some (num_of_decimal neg (nat_of_digits (ip @ fds)) (x - int (length fds)), r)"
proof -
  have "take 1 (ip @ rest) \<noteq> ''-''" using assms(1,2) by (cases ip) (auto simp: is_digit_def)
  then show ?thesis using assms parse_int_part_digits[OF assms(1-4)] by (simp add: parse_number_def)
qed


lemma end_not_dot: "t = [] \<or> hd t \<notin> number_chars \<Longrightarrow>
    take 1 t \<noteq> ''.'' \<and> take 1 t \<noteq> ''e'' \<and> take 1 t \<noteq> ''E''"
  by (cases t) (auto simp: number_chars_def)

lemma parse_number_to_string:
  assumes r: "r = [] \<or> hd r \<notin> number_chars"
  shows "parse_number (number_to_string m e @ r) = Some (num_normal m e, r)"
proof -
  have rd: "r = [] \<or> \<not> is_digit (hd r)" using not_digit_end[OF r] .
  have rx: "take 1 r \<noteq> ''.''" "take 1 r \<noteq> ''e''" "take 1 r \<noteq> ''E''" using end_not_dot[OF r] by simp_all
  have fr0: "parse_fraction r = Some ([], r)" using rx by (simp add: parse_fraction_none)
  have ex0: "parse_exponent r = Some (0, r)" using rx by (simp add: parse_exponent_none)
  show ?thesis
  proof (cases "m = 0")
    case True
    have "parse_number ((if False then ''-'' else []) @ ''0'' @ r) =
        Some (num_of_decimal False (nat_of_digits (''0'' @ [])) (0 - int (length ([] :: string))), r)"
      by (rule parse_number_shape[OF _ _ _ rd fr0 ex0]) (simp_all add: is_digit_def)
    then show ?thesis using True
      by (simp add: number_to_string_def num_normal_def num_of_decimal_def digit_value_def)
  next
    case False
    obtain s z where sz: "strip_zeros (nat \<bar>m\<bar>) = (s, z)" by (cases "strip_zeros (nat \<bar>m\<bar>)")
    have s: "nat \<bar>m\<bar> = s * 10 ^ z" "s \<noteq> 0" "\<not> 10 dvd s" using strip_zeros_prop[OF sz] False by auto
    define neg where "neg = (m < 0)"
    define ds where "ds = digits_nat s"
    define k where "k = int (length ds)"
    define n where "n = k + e + int z"
    define c where "c = (if 0 < n - 1 then CHR ''+'' else CHR ''-'')"
    define ex where "ex = CHR ''e'' # c # digits_nat (nat \<bar>n - 1\<bar>)"
    define v where "v = Finite (if neg then - int s else int s)"
    have norm: "num_normal m e = v (e + int z)"
      using s by (simp add: num_normal_def neg_def v_def num_of_decimal_shift)
    have eq: "number_to_string m e = (if neg then ''-'' else []) @
                (if k \<le> n \<and> n \<le> 21 then ds @ replicate (nat (n - k)) (CHR ''0'')
                 else if 0 < n \<and> n \<le> 21 then take (nat n) ds @ ''.'' @ drop (nat n) ds
                 else if -6 < n \<and> n \<le> 0 then ''0.'' @ replicate (nat (- n)) (CHR ''0'') @ ds
                 else if k = 1 then ds @ ex else take 1 ds @ ''.'' @ drop 1 ds @ ex)"
      using False sz by (simp add: number_to_string_def neg_def ds_def k_def n_def ex_def c_def Let_def)
    have ds: "ds \<noteq> []" "list_all is_digit ds" "hd ds \<noteq> CHR ''0''" "nat_of_digits ds = s"
      using digits_nat_digits[of s] digits_nat_hd[OF s(2)] by (simp_all add: ds_def)
    have td: "list_all is_digit (take j ds) \<and> list_all is_digit (drop j ds)" for j
      using list_all_take_drop[OF ds(2)] .
    have hd_take: "0 < j \<Longrightarrow> hd (take j ds) \<noteq> CHR ''0''" for j using ds(1,3) by (cases ds) simp_all
    have nd: "nat_of_digits (take j ds @ drop j ds) = s" for j using ds(4) by simp
    have exp: "parse_exponent (ex @ r) = Some (n - 1, r)"
    proof -
      have "parse_exponent (ex @ r) = Some (if c = CHR ''-'' then - int (nat_of_digits (digits_nat (nat \<bar>n - 1\<bar>)))
          else int (nat_of_digits (digits_nat (nat \<bar>n - 1\<bar>))), r)"
        unfolding ex_def append_Cons
        by (rule parse_exponent_digits) (use digits_nat_digits rd in \<open>simp_all add: c_def\<close>)
      then show ?thesis by (simp add: c_def)
    qed
    have fx: "parse_fraction (ex @ r) = Some ([], ex @ r)" by (simp add: ex_def parse_fraction_none)
    consider (a) "k \<le> n \<and> n \<le> 21" | (b) "\<not> (k \<le> n \<and> n \<le> 21)" "0 < n \<and> n \<le> 21"
      | (c) "\<not> (k \<le> n \<and> n \<le> 21)" "\<not> (0 < n \<and> n \<le> 21)" "-6 < n \<and> n \<le> 0"
      | (d) "\<not> (k \<le> n \<and> n \<le> 21)" "\<not> (0 < n \<and> n \<le> 21)" "\<not> (-6 < n \<and> n \<le> 0)" "k = 1"
      | (e) "\<not> (k \<le> n \<and> n \<le> 21)" "\<not> (0 < n \<and> n \<le> 21)" "\<not> (-6 < n \<and> n \<le> 0)" "k \<noteq> 1"
      by blast
    then show ?thesis
    proof cases
      case a
      let ?ip = "ds @ replicate (nat (n - k)) (CHR ''0'')"
      have "parse_number ((if neg then ''-'' else []) @ ?ip @ r) =
          Some (num_of_decimal neg (nat_of_digits (?ip @ [])) (0 - int (length ([] :: string))), r)"
        by (rule parse_number_shape[OF _ _ _ rd fr0 ex0]) (use ds zero_digit in simp_all)
      moreover have "nat_of_digits (?ip @ []) = s * 10 ^ nat (n - k)"
        using ds(4) by (simp add: nat_of_digits_append)
      moreover have "int (nat (n - k)) = e + int z" using a n_def by simp
      ultimately show ?thesis using eq a s norm by (simp add: num_of_decimal_shift v_def)
    next
      case b
      let ?j = "nat n"
      have j: "0 < ?j" "?j < length ds" using b k_def by linarith+
      have "parse_number ((if neg then ''-'' else []) @ take ?j ds @ (CHR ''.'' # drop ?j ds @ r)) =
          Some (num_of_decimal neg (nat_of_digits (take ?j ds @ drop ?j ds)) (0 - int (length (drop ?j ds))), r)"
        by (rule parse_number_shape[OF _ _ _ _ parse_fraction_digits ex0])
           (use td j ds hd_take rd in \<open>simp_all add: is_digit_def\<close>)
      moreover have "0 - int (length (drop ?j ds)) = e + int z" using j k_def n_def by simp
      ultimately show ?thesis using eq b s norm nd[of ?j] num_of_decimal_shift[of s neg 0] by (simp add: v_def)
    next
      case c
      let ?f = "replicate (nat (- n)) (CHR ''0'') @ ds"
      have "parse_number ((if neg then ''-'' else []) @ ''0'' @ (CHR ''.'' # ?f @ r)) =
          Some (num_of_decimal neg (nat_of_digits (''0'' @ ?f)) (0 - int (length ?f)), r)"
        by (rule parse_number_shape[OF _ _ _ _ parse_fraction_digits ex0])
           (use ds zero_digit rd in \<open>simp_all add: is_digit_def\<close>)
      moreover have "nat_of_digits (''0'' @ ?f) = s" using ds(4) by (simp add: nat_of_digits_append nat_of_digits_Cons digit_value_def)
      moreover have "0 - int (length ?f) = e + int z" using c k_def n_def by simp
      ultimately show ?thesis using eq c s norm num_of_decimal_shift[of s neg 0] by (simp add: v_def)
    next
      case d
      have "parse_number ((if neg then ''-'' else []) @ ds @ (ex @ r)) =
          Some (num_of_decimal neg (nat_of_digits (ds @ [])) ((n - 1) - int (length ([] :: string))), r)"
        by (rule parse_number_shape[OF _ _ _ _ fx exp]) (use ds in \<open>simp_all add: ex_def is_digit_def\<close>)
      moreover have "number_to_string m e = (if neg then ''-'' else []) @ ds @ ex"
        using eq by (simp only: if_not_P[OF d(1)] if_not_P[OF d(2)] if_not_P[OF d(3)] if_P[OF d(4)] append_Nil)
      ultimately show ?thesis using d s norm k_def n_def ds(4) num_of_decimal_shift[of s neg 0]
        by (simp add: v_def)
    next
      case e
      have k2: "1 < length ds" using e(4) ds(1) k_def by (cases ds) auto
      have "parse_number ((if neg then ''-'' else []) @ take 1 ds @ (CHR ''.'' # drop 1 ds @ ex @ r)) =
          Some (num_of_decimal neg (nat_of_digits (take 1 ds @ drop 1 ds)) ((n - 1) - int (length (drop 1 ds))), r)"
        by (rule parse_number_shape[OF _ _ _ _ parse_fraction_digits exp])
           (use td k2 ds hd_take in \<open>simp_all add: is_digit_def ex_def\<close>)
      moreover have "number_to_string m e = (if neg then ''-'' else []) @ take 1 ds @ ''.'' @ drop 1 ds @ ex"
        using eq by (simp only: if_not_P[OF e(1)] if_not_P[OF e(2)] if_not_P[OF e(3)] if_not_P[OF e(4)] append_Nil)
      moreover have "(n - 1) - int (length (drop 1 ds)) = e + int z" using k_def n_def k2 by simp
      ultimately show ?thesis using s norm nd[of 1] num_of_decimal_shift[of s neg 0] by (simp add: v_def)
    qed
  qed
qed

subsection \<open>Layout, arrays and objects\<close>

lemma skip_ws_ws: "list_all json_ws w \<Longrightarrow> skip_ws (w @ s) = skip_ws s"
  by (induction w) (simp_all add: skip_ws_def)

lemma skip_ws_char: "\<not> json_ws c \<Longrightarrow> skip_ws (c # s) = c # s"
  by (simp add: skip_ws_def)

lemma skip_ws_to: "list_all json_ws w \<Longrightarrow> \<not> json_ws c \<Longrightarrow> skip_ws (w @ c # r) = c # r"
  by (simp add: skip_ws_ws skip_ws_char)

lemma parse_value_skip: "skip_ws s = skip_ws s' \<Longrightarrow> parse_value s = parse_value s'"
  by (simp add: parse_value.simps)

lemma insort_key_map: "insort_key g (h x) (map h ys) = map h (insort_key (g \<circ> h) x ys)"
  by (induction ys) simp_all

lemma sort_key_map: "sort_key g (map h xs) = map h (sort_key (g \<circ> h) xs)"
  by (induction xs) (simp_all add: insort_key_map comp_def)

lemma prop_order_map:
  "prop_order (map (\<lambda>(k, x). (k, f x)) kvs) = map (\<lambda>(k, x). (k, f x)) (prop_order kvs)"
proof -
  have "(\<lambda>(k, _). nat_of_digits k) \<circ> (\<lambda>(k, x). (k, f x)) = (\<lambda>(k, _). nat_of_digits k)" by auto
  moreover have "(\<lambda>(k, _). P k) \<circ> (\<lambda>(k, x). (k, f x)) = (\<lambda>(k, _). P k)" for P :: "string \<Rightarrow> bool" by auto
  ultimately show ?thesis by (simp add: prop_order_def filter_map sort_key_map)
qed

lemma prop_order_filter: "prop_order (filter P kvs) = filter P (prop_order kvs)"
  by (simp add: prop_order_def filter_sort conj_commute)

lemma update_fresh: "k \<notin> fst ` set al \<Longrightarrow> AList.update k v al = al @ [(k, v)]"
  by (induction al) auto


lemma ends_value_simps: "ends_value []" "ends_value (CHR '','' # r)" "ends_value (newline # r)"
  by (simp_all add: ends_value_def)

lemma json_ws_simps: "json_ws newline" "json_ws (CHR '' '')" "\<not> json_ws (CHR '','')"
  "\<not> json_ws (CHR '']'')" "\<not> json_ws (CHR ''}'')" "\<not> json_ws (CHR '':'')" "\<not> json_ws dquote"
  by (simp_all add: json_ws_def)

lemma parse_elements_step:
  assumes "parse_value s = Inr (v, tail)" "length tail < length s"
  shows "parse_elements acc s = (case skip_ws tail of [] \<Rightarrow> Inl SyntaxError
             | d # r' \<Rightarrow> if d = CHR '','' then parse_elements (acc @ [v]) r'
                        else if d = CHR '']'' then Inr (JArray (acc @ [v]), r')
                        else Inl SyntaxError)"
  using assms by (subst parse_elements.simps) simp

lemma parse_elements_join:
  assumes "ps \<noteq> []"
    and "\<forall>(t, v) \<in> set ps. t \<noteq> [] \<and> (\<forall>r. ends_value r \<longrightarrow> parse_value (t @ r) = Inr (v, r))"
    and "list_all json_ws w" "list_all json_ws ind'" "list_all json_ws ind"
  shows "parse_elements acc (w @ join (CHR '','' # newline # ind') (map fst ps) @ newline # ind @ CHR '']'' # r) =
    Inr (JArray (acc @ map snd ps), r)"
  using assms(1,2,3)
proof (induction ps arbitrary: acc w)
  case (Cons p ps)
  obtain t v where p: "p = (t, v)" by (cases p)
  have t: "t \<noteq> []" "\<And>r. ends_value r \<Longrightarrow> parse_value (t @ r) = Inr (v, r)" using Cons.prems(2) p by auto
  show ?case
  proof (cases ps)
    case Nil
    let ?tail = "newline # ind @ CHR '']'' # r"
    have "parse_value (w @ t @ ?tail) = Inr (v, ?tail)"
      using t(2)[of ?tail] parse_value_skip[of "w @ t @ ?tail" "t @ ?tail"] Cons.prems(3)
      by (simp add: skip_ws_ws ends_value_simps)
    moreover have "skip_ws ?tail = CHR '']'' # r"
      using skip_ws_to[of "newline # ind" "CHR '']''" r] assms(5) by (simp add: json_ws_simps)
    ultimately show ?thesis using Nil p t(1) by (simp add: parse_elements_step)
  next
    case (Cons p2 ps2)
    let ?rest = "join (CHR '','' # newline # ind') (map fst ps) @ newline # ind @ CHR '']'' # r"
    let ?tail = "CHR '','' # newline # ind' @ ?rest"
    have j: "join (CHR '','' # newline # ind') (map fst (p # ps)) = t @ CHR '','' # newline # ind' @
        join (CHR '','' # newline # ind') (map fst ps)" using Cons p by simp
    have "parse_value (w @ t @ ?tail) = Inr (v, ?tail)"
      using t(2)[of ?tail] parse_value_skip[of "w @ t @ ?tail" "t @ ?tail"] Cons.prems(3)
      by (simp add: skip_ws_ws ends_value_simps)
    moreover have "skip_ws ?tail = ?tail" by (simp add: skip_ws_char json_ws_simps)
    moreover have "parse_elements (acc @ [v]) ((newline # ind') @ ?rest) = Inr (JArray ((acc @ [v]) @ map snd ps), r)"
      using Cons.IH[of "newline # ind'" "acc @ [v]"] \<open>ps = p2 # ps2\<close> Cons.prems(2) assms(4)
      by (simp add: json_ws_simps)
    ultimately show ?thesis using j p t(1) by (simp add: parse_elements_step)
  qed
qed simp


lemma parse_members_step:
  assumes "skip_ws s = dquote # r0" "parse_chars [] r0 = Inr (k, r1)" "skip_ws r1 = CHR '':'' # r2"
    "parse_value r2 = Inr (v, r3)" "length r3 < length r2"
  shows "parse_members acc s = (case skip_ws r3 of [] \<Rightarrow> Inl SyntaxError
     | e # r4 \<Rightarrow> if e = CHR '','' then parse_members (AList.update k v acc) r4
                else if e = CHR ''}'' then Inr (JObject (prop_order (AList.update k v acc)), r4)
                else Inl SyntaxError)"
  using assms by (subst parse_members.simps) simp

lemma parse_member:
  assumes "list_all json_ws w" "t \<noteq> []" "parse_value (t @ tail) = Inr (v, tail)"
  shows "parse_members acc (w @ (quote_json k @ '': '' @ t) @ tail) = (case skip_ws tail of [] \<Rightarrow> Inl SyntaxError
     | e # r4 \<Rightarrow> if e = CHR '','' then parse_members (AList.update k v acc) r4
                else if e = CHR ''}'' then Inr (JObject (prop_order (AList.update k v acc)), r4)
                else Inl SyntaxError)"
proof (rule parse_members_step)
  show "skip_ws (w @ (quote_json k @ '': '' @ t) @ tail) = dquote # (tl (quote_json k) @ '': '' @ t @ tail)"
    using skip_ws_to[OF assms(1), of dquote] by (simp add: json_ws_simps quote_json_def)
  show "parse_chars [] (tl (quote_json k) @ '': '' @ t @ tail) = Inr (k, '': '' @ t @ tail)"
    by (rule parse_quote_json)
  show "skip_ws ('': '' @ t @ tail) = CHR '':'' # (CHR '' '' # t @ tail)"
    by (simp add: skip_ws_char json_ws_simps)
  show "parse_value (CHR '' '' # t @ tail) = Inr (v, tail)"
    using assms(3) parse_value_skip[of "CHR '' '' # t @ tail" "t @ tail"] by (simp add: skip_ws_def json_ws_def)
  show "length tail < length (CHR '' '' # t @ tail)" by simp
qed

lemma parse_members_join:
  assumes "ps \<noteq> []"
    and "\<forall>(k, t, v) \<in> set ps. t \<noteq> [] \<and> (\<forall>r. ends_value r \<longrightarrow> parse_value (t @ r) = Inr (v, r))"
    and "list_all json_ws w" "list_all json_ws ind'" "list_all json_ws ind"
    and "distinct (map fst acc @ map fst ps)"
  shows "parse_members acc (w @ join (CHR '','' # newline # ind') (map (\<lambda>(k, t, v). quote_json k @ '': '' @ t) ps) @
      newline # ind @ CHR ''}'' # r) = Inr (JObject (prop_order (acc @ map (\<lambda>(k, t, v). (k, v)) ps)), r)"
  using assms(1,2,3,6)
proof (induction ps arbitrary: acc w)
  case (Cons p ps)
  obtain k t v where p: "p = (k, t, v)" by (cases p)
  have t: "t \<noteq> []" "\<And>r. ends_value r \<Longrightarrow> parse_value (t @ r) = Inr (v, r)" using Cons.prems(2) p by auto
  have upd: "AList.update k v acc = acc @ [(k, v)]"
    using Cons.prems(4) p by (intro update_fresh) auto
  show ?case
  proof (cases ps)
    case Nil
    let ?tail = "newline # ind @ CHR ''}'' # r"
    have "skip_ws ?tail = CHR ''}'' # r"
      using skip_ws_to[of "newline # ind" "CHR ''}''" r] assms(5) by (simp add: json_ws_simps)
    then show ?thesis
      using parse_member[OF Cons.prems(3) t(1) t(2)[of ?tail], of acc k] Nil p upd by (simp add: ends_value_simps)
  next
    case (Cons p2 ps2)
    let ?rest = "join (CHR '','' # newline # ind') (map (\<lambda>(k, t, v). quote_json k @ '': '' @ t) ps) @
      newline # ind @ CHR ''}'' # r"
    let ?tail = "CHR '','' # newline # ind' @ ?rest"
    have j: "w @ join (CHR '','' # newline # ind') (map (\<lambda>(k, t, v). quote_json k @ '': '' @ t) (p # ps)) @
        newline # ind @ CHR ''}'' # r = w @ (quote_json k @ '': '' @ t) @ ?tail" using Cons p by simp
    have "parse_members (acc @ [(k, v)]) ((newline # ind') @ ?rest) =
        Inr (JObject (prop_order ((acc @ [(k, v)]) @ map (\<lambda>(k, t, v). (k, v)) ps)), r)"
      using Cons.IH[of "newline # ind'" "acc @ [(k, v)]"] \<open>ps = p2 # ps2\<close> Cons.prems(2,4) assms(4) p
      by (simp add: json_ws_simps)
    then show ?thesis
      unfolding j using parse_member[OF Cons.prems(3) t(1) t(2)[of ?tail], of acc k] p upd
      by (simp add: ends_value_simps skip_ws_char json_ws_simps)
  qed
qed simp

subsection \<open>Values\<close>

lemma ends_value_number: "ends_value r \<Longrightarrow> r = [] \<or> hd r \<notin> number_chars"
  by (cases r) (auto simp: ends_value_def number_chars_def is_digit_def)

lemma parse_value_literal:
  "parse_value (CHR ''n'' # CHR ''u'' # CHR ''l'' # CHR ''l'' # r) = Inr (JNull, r)"
  "parse_value (CHR ''t'' # CHR ''r'' # CHR ''u'' # CHR ''e'' # r) = Inr (JBool True, r)"
  "parse_value (CHR ''f'' # CHR ''a'' # CHR ''l'' # CHR ''s'' # CHR ''e'' # r) = Inr (JBool False, r)"
  by (simp_all add: parse_value.simps skip_ws_char json_ws_def)

lemma parse_value_string: "parse_value (quote_json s @ r) = Inr (JString s, r)"
proof -
  have e: "quote_json s @ r = dquote # (tl (quote_json s) @ r)" by (simp add: quote_json_def)
  show ?thesis unfolding e by (simp add: parse_value.simps skip_ws_char json_ws_def parse_quote_json)
qed

lemma number_start:
  "c = CHR ''-'' \<or> is_digit c \<Longrightarrow> \<not> json_ws c \<and> c \<noteq> CHR ''['' \<and> c \<noteq> CHR ''{'' \<and> c \<noteq> dquote \<and>
     c \<noteq> CHR '']'' \<and> c \<noteq> CHR ''}'' \<and> c \<noteq> CHR ''t'' \<and> c \<noteq> CHR ''f'' \<and> c \<noteq> CHR ''n''"
  by (auto simp: is_digit_def json_ws_def)

lemma number_to_string_Cons:
  "\<exists>c t'. number_to_string m e = c # t' \<and> (c = CHR ''-'' \<or> is_digit c)"
proof -
  obtain sg ip fp xp where "number_to_string m e = sg @ ip @ fp @ xp" "num_parts sg ip fp xp"
    using number_to_string_parts[of m e] by (elim exE conjE)
  then have "number_to_string m e \<noteq> [] \<and>
      (hd (number_to_string m e) = CHR ''-'' \<or> is_digit (hd (number_to_string m e)))"
    using num_parts_hd by simp
  then show ?thesis by (cases "number_to_string m e") simp_all
qed

lemma parse_value_num_start:
  assumes "c = CHR ''-'' \<or> is_digit c"
  shows "parse_value (c # s) = (case parse_number (c # s) of None \<Rightarrow> Inl SyntaxError
           | Some (x, r') \<Rightarrow> Inr (JNumber x, r'))"
proof -
  have n: "\<not> json_ws c" "c \<noteq> CHR ''[''" "c \<noteq> CHR ''{''" "c \<noteq> dquote" "c \<noteq> CHR ''t''"
    "c \<noteq> CHR ''f''" "c \<noteq> CHR ''n''" using number_start[OF assms] by simp_all
  have "take 4 (c # s) \<noteq> ''true''" "take 5 (c # s) \<noteq> ''false''" "take 4 (c # s) \<noteq> ''null''"
    using n by (simp_all add: take_Suc_Cons numeral_eq_Suc)
  then show ?thesis using n by (subst parse_value.simps) (simp only: skip_ws_char[OF n(1)] list.case if_False)
qed

lemma parse_value_number:
  assumes "ends_value r"
  shows "parse_value (number_to_string m e @ r) = Inr (JNumber (num_normal m e), r)"
proof -
  obtain c t' where ct: "number_to_string m e = c # t'" "c = CHR ''-'' \<or> is_digit c"
    using number_to_string_Cons[of m e] by (elim exE conjE)
  then show ?thesis
    using parse_number_to_string[OF ends_value_number[OF assms], of m e] parse_value_num_start[OF ct(2), of "t' @ r"]
    by simp
qed

lemma parse_value_empty: "parse_value (CHR ''['' # CHR '']'' # r) = Inr (JArray [], r)"
  "parse_value (CHR ''{'' # CHR ''}'' # r) = Inr (JObject [], r)"
  by (simp_all add: parse_value.simps skip_ws_char json_ws_def)

lemma join_Cons: "join sep (x # xs) = x @ (if xs = [] then [] else sep @ join sep xs)"
  by (cases xs) simp_all

lemma parse_value_open:
  assumes "list_all json_ws w" "items = i # is" "i = c # i'" "\<not> json_ws c"
  shows "c \<noteq> CHR '']'' \<Longrightarrow> parse_value ((CHR ''['' # w @ join sep items @ cl) @ r) = parse_elements [] (w @ join sep items @ cl @ r)"
    and "c \<noteq> CHR ''}'' \<Longrightarrow> parse_value ((CHR ''{'' # w @ join sep items @ cl) @ r) = parse_members [] (w @ join sep items @ cl @ r)"
proof -
  have "skip_ws (w @ join sep items @ cl @ r) = c # i' @ (if is = [] then [] else sep @ join sep is) @ cl @ r"
    using skip_ws_to[OF assms(1) assms(4)] assms(2,3) by (simp add: join_Cons)
  then show "c \<noteq> CHR '']'' \<Longrightarrow> parse_value ((CHR ''['' # w @ join sep items @ cl) @ r) = parse_elements [] (w @ join sep items @ cl @ r)"
    and "c \<noteq> CHR ''}'' \<Longrightarrow> parse_value ((CHR ''{'' # w @ join sep items @ cl) @ r) = parse_members [] (w @ join sep items @ cl @ r)"
    by (simp_all add: parse_value.simps skip_ws_char json_ws_def)
qed

lemma json_ser_hd:
  "json_ser ind v = Some t \<Longrightarrow> t \<noteq> [] \<and> \<not> json_ws (hd t) \<and> hd t \<noteq> CHR '']'' \<and> hd t \<noteq> CHR ''}''"
proof (cases v)
  case (JNumber x)
  assume t: "json_ser ind v = Some t"
  show ?thesis
  proof (cases x)
    case (Finite m e)
    obtain c t' where "number_to_string m e = c # t'" "c = CHR ''-'' \<or> is_digit c"
      using number_to_string_Cons[of m e] by (elim exE conjE)
    moreover have "t = number_to_string m e" using t JNumber Finite by (simp add: json_number_def)
    ultimately show ?thesis using number_start[of c] by simp
  qed (use t JNumber in \<open>auto simp: json_number_def json_ws_def\<close>)
next
  case (JArray xs)
  then show "json_ser ind v = Some t \<Longrightarrow> ?thesis" by (auto simp: json_ws_def Let_def split: if_splits)
next
  case (JObject kvs)
  then show "json_ser ind v = Some t \<Longrightarrow> ?thesis" by (auto simp: json_ws_def Let_def split: if_splits)
qed (auto simp: json_ws_def quote_json_def split: if_splits)

lemma gap_ws: "list_all json_ws ind \<Longrightarrow> list_all json_ws (ind @ gap)"
  by (simp add: gap_def json_ws_def list_all_iff)

lemma members_text:
  "map (\<lambda>(k, t, v). quote_json k @ '': '' @ t)
     (concat (map (\<lambda>(k, x). case json_ser ind x of None \<Rightarrow> [] | Some t \<Rightarrow> [(k, t, json_normal x)]) kvs)) =
   concat (map (\<lambda>(k, x). case json_ser ind x of None \<Rightarrow> [] | Some t \<Rightarrow> [quote_json k @ '': '' @ t]) kvs)"
  by (induction kvs) (auto split: option.split)

lemma members_values:
  "map (\<lambda>(k, t, v). (k, v))
     (concat (map (\<lambda>(k, x). case json_ser ind x of None \<Rightarrow> [] | Some t \<Rightarrow> [(k, t, json_normal x)]) kvs)) =
   map (\<lambda>(k, x). (k, json_normal x)) (filter (\<lambda>(k, x). x \<noteq> JUndefined) kvs)"
  by (induction kvs) (auto split: option.split simp: json_ser_None)

lemma map_fst_pairs: "map fst (map (\<lambda>(k, x). (k, f x)) xs) = map fst xs"
  by (induction xs) auto

lemma parse_json_ser:
  "json_ser ind v = Some t \<Longrightarrow> js_wf v \<Longrightarrow> list_all json_ws ind \<Longrightarrow> ends_value r \<Longrightarrow>
   parse_value (t @ r) = Inr (json_normal v, r)"
proof (induction ind v arbitrary: t r rule: json_ser.induct)
  case (3 ind b)
  then show ?case by (cases b) (auto simp: parse_value_literal)
next
  case (4 ind x)
  then show ?case by (cases x) (auto simp: json_number_def parse_value_number parse_value_literal)
next
  case (5 ind s)
  then show ?case by (auto simp: parse_value_string)
next
  case (6 ind xs)
  define item where "item x = (case json_ser (ind @ gap) x of None \<Rightarrow> ''null'' | Some t \<Rightarrow> t)" for x
  define ps where "ps = map (\<lambda>x. (item x, if x = JUndefined then JNull else json_normal x)) xs"
  have ws: "list_all json_ws (ind @ gap)" using "6.prems"(3) by (rule gap_ws)
  have item: "item x \<noteq> [] \<and> \<not> json_ws (hd (item x)) \<and> hd (item x) \<noteq> CHR '']''" for x
    using json_ser_hd[of "ind @ gap" x] by (auto simp: item_def json_ws_def split: option.split)
  show ?case
  proof (cases xs)
    case Nil
    then show ?thesis using "6.prems"(1) by (auto simp: parse_value_empty)
  next
    case (Cons x1 xs1)
    have t: "t = CHR ''['' # (newline # ind @ gap) @ join (CHR '','' # newline # ind @ gap) (map fst ps) @
        newline # ind @ '']''"
      using "6.prems"(1) Cons by (simp add: ps_def item_def comp_def)
    have okx: "item x \<noteq> [] \<and> (\<forall>r. ends_value r \<longrightarrow>
        parse_value (item x @ r) = Inr (if x = JUndefined then JNull else json_normal x, r))"
      if x: "x \<in> set xs" for x
    proof (intro conjI allI impI)
      show "item x \<noteq> []" using item[of x] by simp
      fix r assume r: "ends_value r"
      show "parse_value (item x @ r) = Inr (if x = JUndefined then JNull else json_normal x, r)"
      proof (cases "json_ser (ind @ gap) x")
        case None
        then show ?thesis by (simp add: item_def json_ser_None parse_value_literal)
      next
        case (Some t')
        then have "parse_value (t' @ r) = Inr (json_normal x, r)"
          using "6.IH"[OF x Some _ ws r] "6.prems"(2) x by simp
        then show ?thesis using Some by (auto simp: item_def json_ser_None[symmetric])
      qed
    qed
    then have ok: "\<forall>(t, v) \<in> set ps. t \<noteq> [] \<and> (\<forall>r. ends_value r \<longrightarrow> parse_value (t @ r) = Inr (v, r))"
      by (auto simp: ps_def)
    obtain c i' where i: "item x1 = c # i'" "\<not> json_ws c" "c \<noteq> CHR '']''" using item[of x1] by (cases "item x1") auto
    have "parse_value (t @ r) = parse_elements [] ((newline # ind @ gap) @ join (CHR '','' # newline # ind @ gap) (map fst ps) @
        (newline # ind @ '']'') @ r)"
      unfolding t by (rule parse_value_open(1)[of _ _ "item x1" "map item xs1" c i'])
        (use ws i Cons in \<open>simp_all add: ps_def json_ws_simps\<close>)
    also have "\<dots> = Inr (JArray ([] @ map snd ps), r)"
      using parse_elements_join[OF _ ok, of "newline # ind @ gap" "ind @ gap" ind "[]" r] Cons ws "6.prems"(3)
      by (simp add: ps_def json_ws_simps)
    finally show ?thesis by (simp add: ps_def comp_def)
  qed
next
  case (7 ind kvs)
  define ps where "ps = concat (map (\<lambda>(k, x). case json_ser (ind @ gap) x of None \<Rightarrow> []
                           | Some t \<Rightarrow> [(k, t, json_normal x)]) kvs)"
  define mem where "mem = map (\<lambda>(k, t, v). quote_json k @ '': '' @ t) ps"
  have ws: "list_all json_ws (ind @ gap)" using "7.prems"(3) by (rule gap_ws)
  have wf: "distinct (map fst kvs)" "prop_order kvs = kvs" "\<And>x. x \<in> snd ` set kvs \<Longrightarrow> js_wf x"
    using "7.prems"(2) by auto
  have vals: "map (\<lambda>(k, t, v). (k, v)) ps = map (\<lambda>(k, x). (k, json_normal x)) (filter (\<lambda>(k, x). x \<noteq> JUndefined) kvs)"
    unfolding ps_def by (rule members_values)
  have t: "t = (if mem = [] then ''{}'' else CHR ''{'' # (newline # ind @ gap) @
      join (CHR '','' # newline # ind @ gap) mem @ newline # ind @ ''}'')"
    using "7.prems"(1)[symmetric] unfolding mem_def ps_def members_text by (simp add: Let_def del: concat_eq_Nil_conv)
  show ?case
  proof (cases ps)
    case Nil
    then have "filter (\<lambda>(k, x). x \<noteq> JUndefined) kvs = []" using vals by simp
    then show ?thesis using t Nil by (auto simp: mem_def parse_value_empty)
  next
    case (Cons p1 ps1)
    have okp: "\<forall>(k, t, v) \<in> set ps. t \<noteq> [] \<and> (\<forall>r. ends_value r \<longrightarrow> parse_value (t @ r) = Inr (v, r))"
    proof (intro ballI, clarify, intro conjI allI impI)
      fix k t' v assume "(k, t', v) \<in> set ps"
      then obtain x where x: "(k, x) \<in> set kvs" "json_ser (ind @ gap) x = Some t'" "v = json_normal x"
        by (auto simp: ps_def split: option.splits)
      show "t' \<noteq> []" using json_ser_hd[OF x(2)] by simp
      fix r assume r: "ends_value r"
      have "js_wf x" using wf(3) x(1) by force
      then show "parse_value (t' @ r) = Inr (v, r)" using "7.IH"[OF x(1) refl x(2) _ ws r] x(3) by simp
    qed
    obtain k1 t1 v1 where p1: "p1 = (k1, t1, v1)" by (cases p1)
    have "parse_value (t @ r) = parse_members [] ((newline # ind @ gap) @ join (CHR '','' # newline # ind @ gap) mem @
        (newline # ind @ ''}'') @ r)"
      unfolding t using Cons p1
      by (simp only: mem_def list.map if_False list.simps(3) prod.case)
         (rule parse_value_open(2)[of _ _ "quote_json k1 @ '': '' @ t1" _ dquote "tl (quote_json k1) @ '': '' @ t1"],
          use ws in \<open>simp_all add: json_ws_simps quote_json_def\<close>)
    also have "\<dots> = Inr (JObject (prop_order ([] @ map (\<lambda>(k, t, v). (k, v)) ps)), r)"
    proof -
      have "map fst ps = map fst (map (\<lambda>(k, t, v). (k, v)) ps)" by (induction ps) auto
      also have "\<dots> = map fst (map (\<lambda>(k, x). (k, json_normal x)) (filter (\<lambda>(k, x). x \<noteq> JUndefined) kvs))"
        by (simp only: vals)
      also have "\<dots> = map fst (filter (\<lambda>(k, x). x \<noteq> JUndefined) kvs)" by (rule map_fst_pairs)
      finally have d: "distinct (map fst [] @ map fst ps)" using distinct_map_filter[OF wf(1)] by simp
      have "parse_members [] ((newline # ind @ gap) @ join (CHR '','' # newline # ind @ gap)
          (map (\<lambda>(k, t, v). quote_json k @ '': '' @ t) ps) @ newline # ind @ CHR ''}'' # r) =
          Inr (JObject (prop_order ([] @ map (\<lambda>(k, t, v). (k, v)) ps)), r)"
        by (rule parse_members_join[OF _ okp _ _ _ d]) (use Cons ws "7.prems"(3) in \<open>simp_all add: json_ws_simps\<close>)
      then show ?thesis by (simp add: mem_def)
    qed
    finally show ?thesis
      using vals wf(2) by (simp add: prop_order_map prop_order_filter)
  qed
qed (auto simp: parse_value_literal)

subsection \<open>Every parse consumes input\<close>

lemma length_takeWhile_dropWhile: "length (dropWhile P s) = length s - length (takeWhile P s)"
  by (metis length_append takeWhile_dropWhile_id add_diff_cancel_left')

lemma parse_int_part_shorter: "parse_int_part s = Some (ip, s2) \<Longrightarrow> length s2 < length s"
proof -
  assume a: "parse_int_part s = Some (ip, s2)"
  then have "takeWhile is_digit s \<noteq> []" "s2 = dropWhile is_digit s"
    by (auto simp: parse_int_part_def Let_def split: if_splits)
  moreover have "0 < length (takeWhile is_digit s)" using calculation(1) by simp
  moreover have "length s2 = length s - length (takeWhile is_digit s)"
    using calculation(2) length_takeWhile_dropWhile[of is_digit s] by simp
  ultimately show ?thesis using length_takeWhile_le[of is_digit s] by linarith
qed

lemma parse_fraction_shorter: "parse_fraction s = Some (fp, t) \<Longrightarrow> length t \<le> length s"
  using length_dropWhile_le[of is_digit "drop 1 s"]
  by (auto simp: parse_fraction_def Let_def split: if_splits)

lemma parse_exponent_shorter: "parse_exponent s = Some (x, t) \<Longrightarrow> length t \<le> length s"
proof -
  assume a: "parse_exponent s = Some (x, t)"
  let ?t = "drop 1 s"
  let ?t' = "if take 1 ?t = ''-'' \<or> take 1 ?t = ''+'' then drop 1 ?t else ?t"
  have "length (dropWhile is_digit ?t') \<le> length s" using length_dropWhile_le[of is_digit ?t'] by auto
  then show ?thesis using a by (auto simp: parse_exponent_def Let_def split: if_splits)
qed

lemma parse_number_shorter: "parse_number s = Some (x, r) \<Longrightarrow> length r < length s"
proof -
  assume a: "parse_number s = Some (x, r)"
  define s1 where "s1 = (if take 1 s = ''-'' then drop 1 s else s)"
  have s1: "length s1 \<le> length s" by (simp add: s1_def)
  obtain ip s2 fp s3 x' where "parse_int_part s1 = Some (ip, s2)" "parse_fraction s2 = Some (fp, s3)"
      "parse_exponent s3 = Some (x', r)"
    using a by (auto simp: parse_number_def Let_def s1_def split: option.splits)
  then show ?thesis using s1
    by (auto dest!: parse_int_part_shorter parse_fraction_shorter parse_exponent_shorter)
qed


lemma parse_shorter:
  "parse_value s = Inr (v, r) \<Longrightarrow> length r < length s"
  "parse_elements acc s = Inr (v, r) \<Longrightarrow> length r < length s"
  "parse_members acc' s = Inr (v, r) \<Longrightarrow> length r < length s"
proof (induction s and acc s and acc' s arbitrary: v r and v r and v r
    rule: parse_value_parse_elements_parse_members.induct)
  case (1 s)
  obtain c r0 where s0: "skip_ws s = c # r0"
    using "1.prems" by (subst (asm) parse_value.simps) (auto split: list.splits)
  have l0: "length r0 < length s" using skip_ws_Cons[OF s0] .
  have e: "(if c = CHR ''['' then
         (case skip_ws r0 of [] \<Rightarrow> Inl SyntaxError
          | d # r' \<Rightarrow> if d = CHR '']'' then Inr (JArray [], r') else parse_elements [] r0)
       else if c = CHR ''{'' then
         (case skip_ws r0 of [] \<Rightarrow> Inl SyntaxError
          | d # r' \<Rightarrow> if d = CHR ''}'' then Inr (JObject [], r') else parse_members [] r0)
       else if c = dquote then
         (case parse_chars [] r0 of Inl err \<Rightarrow> Inl err | Inr (str, r') \<Rightarrow> Inr (JString str, r'))
       else if take 4 (c # r0) = ''true'' then Inr (JBool True, drop 3 r0)
       else if take 5 (c # r0) = ''false'' then Inr (JBool False, drop 4 r0)
       else if take 4 (c # r0) = ''null'' then Inr (JNull, drop 3 r0)
       else (case parse_number (c # r0) of None \<Rightarrow> Inl SyntaxError
             | Some (x, r') \<Rightarrow> Inr (JNumber x, r'))) = Inr (v, r)"
    using "1.prems" s0 by (subst (asm) parse_value.simps) simp
  consider "c = CHR ''[''" | "c = CHR ''{''" | "c \<noteq> CHR ''[''" "c \<noteq> CHR ''{''" by blast
  then show ?case
  proof cases
    case 1
    then obtain d r' where sk: "skip_ws r0 = d # r'" using e by (auto split: list.splits)
    have "d \<noteq> CHR '']'' \<Longrightarrow> length r < length r0"
      by (rule "1.IH"(1)[OF s0 1 sk]) (use e 1 sk in simp_all)
    then show ?thesis using e 1 sk skip_ws_Cons[OF sk] l0 by (auto split: if_splits)
  next
    case 2
    then obtain d r' where sk: "skip_ws r0 = d # r'" using e by (auto split: list.splits)
    have "d \<noteq> CHR ''}'' \<Longrightarrow> length r < length r0"
      by (rule "1.IH"(2)[OF s0 _ 2 sk]) (use e 2 sk in simp_all)
    then show ?thesis using e 2 sk skip_ws_Cons[OF sk] l0 by (auto split: if_splits)
  next
    case 3
    then show ?thesis using e l0
      by (auto split: if_splits sum.splits option.splits dest!: parse_chars_shorter parse_number_shorter)
  qed
next
  case (2 acc s)
  obtain v' r1 where pv: "parse_value s = Inr (v', r1)"
    using "2.prems" by (subst (asm) parse_elements.simps) (auto split: sum.splits)
  then have e: "(if length s \<le> length r1 then Inl SyntaxError
       else (case skip_ws r1 of [] \<Rightarrow> Inl SyntaxError
             | d # r' \<Rightarrow> if d = CHR '','' then parse_elements (acc @ [v']) r'
                        else if d = CHR '']'' then Inr (JArray (acc @ [v']), r')
                        else Inl SyntaxError)) = Inr (v, r)"
    using "2.prems" by (subst (asm) parse_elements.simps) simp
  then obtain d r' where g: "length r1 < length s" and sk: "skip_ws r1 = d # r'"
    by (auto split: if_splits list.splits)
  have "length r' < length r1" using sk by (rule skip_ws_Cons)
  moreover have "d = CHR '','' \<Longrightarrow> length r < length r'"
    using "2.IH"(2)[OF pv refl _ sk] e g sk by simp
  ultimately show ?case using e g sk by (auto split: if_splits)
next
  case (3 acc s)
  obtain r0 where s0: "skip_ws s = dquote # r0"
    using "3.prems" by (subst (asm) parse_members.simps) (auto split: list.splits if_splits)
  obtain k r1 where pc: "parse_chars [] r0 = Inr (k, r1)"
    using "3.prems" s0 by (subst (asm) parse_members.simps) (auto split: sum.splits)
  obtain r2 where s1: "skip_ws r1 = CHR '':'' # r2"
    using "3.prems" s0 pc by (subst (asm) parse_members.simps) (auto split: list.splits if_splits)
  obtain v' r3 where pv: "parse_value r2 = Inr (v', r3)"
    using "3.prems" s0 pc s1 by (subst (asm) parse_members.simps) (auto split: sum.splits)
  have e: "(if length r2 \<le> length r3 then Inl SyntaxError
       else (case skip_ws r3 of [] \<Rightarrow> Inl SyntaxError
         | e # r4 \<Rightarrow> if e = CHR '','' then parse_members (AList.update k v' acc) r4
                    else if e = CHR ''}'' then Inr (JObject (prop_order (AList.update k v' acc)), r4)
                    else Inl SyntaxError)) = Inr (v, r)"
    using "3.prems" s0 pc s1 pv by (subst (asm) parse_members.simps) simp
  then obtain c r4 where g: "length r3 < length r2" and s3: "skip_ws r3 = c # r4"
    by (auto split: if_splits list.splits)
  have l: "length r4 < length r3" "length r2 < length r1" "length r1 < length r0" "length r0 < length s"
    using skip_ws_Cons[OF s3] skip_ws_Cons[OF s1] parse_chars_shorter[OF pc] skip_ws_Cons[OF s0] by simp_all
  moreover have "c = CHR '','' \<Longrightarrow> length r < length r4"
    using "3.IH"(2)[OF s0 _ pc refl s1 _ pv refl _ s3] e g s3 by simp
  ultimately show ?case using e g s3 by (auto split: if_splits)
qed

text \<open>
  So the length checks in \<open>parse_elements\<close> and \<open>parse_members\<close> never fail
  (\<open>parse_shorter\<close>); for \<open>parse_elements\<close> this is the plain recursive equation of the grammar.
\<close>

lemma parse_elements_unguarded:
  "parse_elements acc s = (case parse_value s of Inl err \<Rightarrow> Inl err
     | Inr (v, r) \<Rightarrow> (case skip_ws r of [] \<Rightarrow> Inl SyntaxError
         | d # r' \<Rightarrow> if d = CHR '','' then parse_elements (acc @ [v]) r'
                    else if d = CHR '']'' then Inr (JArray (acc @ [v]), r')
                    else Inl SyntaxError))"
  by (subst parse_elements.simps) (auto split: sum.splits dest: parse_shorter(1))

text \<open>Examples: a repeated key keeps its first position and its last value, array indices come first.\<close>

lemma json_parse_examples:
  "json_parse ''{\"b\": 1, \"0\": [], \"b\": 2}'' = Inr (JObject [(''0'', JArray []), (''b'', JNumber (Finite 2 0))])"
  "json_parse ''[1,]'' = Inl SyntaxError" "json_parse ''01'' = Inl SyntaxError"
  "json_parse ''1.'' = Inl SyntaxError" "json_parse '' -1.50e+2 '' = Inr (JNumber (Finite (- 15) 1))"
  by (simp_all add: json_parse_eval)

lemma json_value_normal: "json_value v \<Longrightarrow> js_wf v \<and> json_normal v = v \<and> v \<noteq> JUndefined"
proof (induction v rule: json_value.induct)
  case (4 xs)
  then have "map (\<lambda>x. if x = JUndefined then JNull else json_normal x) xs = xs"
    by (induction xs) auto
  then show ?case using 4 by auto
next
  case (5 kvs)
  have "\<forall>(k, x) \<in> set kvs. x \<noteq> JUndefined \<and> json_normal x = x \<and> js_wf x" using 5 by force
  then have "map (\<lambda>(k, x). (k, json_normal x)) (filter (\<lambda>(k, x). x \<noteq> JUndefined) kvs) = kvs"
    by (induction kvs) auto
  then show ?case using 5 by force
qed simp_all

lemma parse_stringify_normal:
  "js_wf v \<Longrightarrow> json_stringify v = Some t \<Longrightarrow> json_parse t = Inr (json_normal v)"
  using parse_json_ser[of "[]" v t "[]"]
  by (simp add: json_stringify_def json_parse_def ends_value_simps skip_ws_def)

lemma highlight_text: "highlight v = Inr h \<Longrightarrow> json_stringify v = Some (unescape_html (strip_tags h))"
  using escape_html_no_brackets
  by (auto simp: highlight_def syntaxHighlight_def strip_tags_scan unescape_escape_html split: option.splits)


end
