(* ===== verification/Zod.thy ===== *)
theory Zod
  imports JsValue
begin

text \<open>
  The zod (version 4) combinators the schemas of \<open>src/lib/types\<close> are built from. A schema
  maps an arbitrary value either to its typed output (\<open>Inr\<close>) or to the list of issues
  found (\<open>Inl\<close>), each issue carrying a code and the path of the offending field. Objects
  and arrays run every member and collect all issues, tagging each with the key or index
  it came from; unknown keys are dropped from the output. zod is a dependency, not code of
  the repository: these definitions follow its documented behaviour.
\<close>

datatype path_elem = PKey string | PIdx nat

datatype issue_code = InvalidType | InvalidValue | InvalidFormat | TooSmall | TooBig

record issue =
  icode :: issue_code
  ipath :: "path_elem list"

type_synonym 'a zresult = "issue list + 'a"

definition mk_issue :: "issue_code \<Rightarrow> issue" where
  "mk_issue c = \<lparr>icode = c, ipath = []\<rparr>"

definition issues_of :: "'a zresult \<Rightarrow> issue list" where
  "issues_of r = (case r of Inl iss \<Rightarrow> iss | Inr _ \<Rightarrow> [])"

lemma issues_of_simps [simp]: "issues_of (Inl iss) = iss" "issues_of (Inr a) = []"
  by (simp_all add: issues_of_def)

subsection \<open>Composition\<close>

definition prefix_issues :: "path_elem \<Rightarrow> issue list \<Rightarrow> issue list" where
  "prefix_issues p iss = map (\<lambda>i. i\<lparr>ipath := p # ipath i\<rparr>) iss"

text \<open>Running a member schema under a key or an index tags its issues with it.\<close>

definition z_at :: "path_elem \<Rightarrow> 'a zresult \<Rightarrow> 'a zresult" where
  "z_at p r = (case r of Inl iss \<Rightarrow> Inl (prefix_issues p iss) | Inr a \<Rightarrow> Inr a)"

definition z_map :: "('a \<Rightarrow> 'b) \<Rightarrow> 'a zresult \<Rightarrow> 'b zresult" where
  "z_map f r = (case r of Inl iss \<Rightarrow> Inl iss | Inr a \<Rightarrow> Inr (f a))"

text \<open>Two members: both are run, the issues of both are kept, in order.\<close>

definition z_and :: "'a zresult \<Rightarrow> 'b zresult \<Rightarrow> ('a \<times> 'b) zresult" where
  "z_and r1 r2 = (case (r1, r2) of (Inr a, Inr b) \<Rightarrow> Inr (a, b)
                                 | _ \<Rightarrow> Inl (issues_of r1 @ issues_of r2))"

fun z_all :: "'a zresult list \<Rightarrow> 'a list zresult" where
  "z_all [] = Inr []"
| "z_all (r # rs) = z_map (\<lambda>(x, xs). x # xs) (z_and r (z_all rs))"

subsection \<open>Primitive schemas\<close>

text \<open>\<open>z.string()\<close>, \<open>z.boolean()\<close>\<close>

definition z_string :: "jsval \<Rightarrow> string zresult" where
  "z_string v = (case v of JString s \<Rightarrow> Inr s | _ \<Rightarrow> Inl [mk_issue InvalidType])"

definition z_boolean :: "jsval \<Rightarrow> bool zresult" where
  "z_boolean v = (case v of JBool b \<Rightarrow> Inr b | _ \<Rightarrow> Inl [mk_issue InvalidType])"

definition max_safe_integer :: int where
  "max_safe_integer = 2 ^ 53 - 1"

text \<open>
  \<open>z.int().positive()\<close>: a finite number (\<open>NaN\<close> and the infinities are a type
  error), then the \<open>safeint\<close> format check (a non-integer aborts the remaining checks;
  an integer outside \<open>\<plusminus>(2^53 - 1)\<close> is too big or too small), then \<open>gt(0)\<close>.
\<close>

definition z_int_positive :: "jsval \<Rightarrow> int zresult" where
  "z_int_positive v = (case v of
     JNumber (Finite m e) \<Rightarrow>
       (if \<not> num_is_integer m e then Inl [mk_issue InvalidType]
        else (let i = num_int_value m e;
                  safe = (if max_safe_integer < i then [mk_issue TooBig]
                          else if i < - max_safe_integer then [mk_issue TooSmall] else []);
                  pos = (if 0 < i then [] else [mk_issue TooSmall])
              in if safe @ pos = [] then Inr i else Inl (safe @ pos)))
   | _ \<Rightarrow> Inl [mk_issue InvalidType])"

text \<open>\<open>z.enum([...])\<close>: membership in a closed set of string literals.\<close>

definition z_enum :: "(string \<times> 'a) list \<Rightarrow> jsval \<Rightarrow> 'a zresult" where
  "z_enum opts v = (case v of
     JString s \<Rightarrow> (case map_of opts s of Some a \<Rightarrow> Inr a | None \<Rightarrow> Inl [mk_issue InvalidValue])
   | _ \<Rightarrow> Inl [mk_issue InvalidValue])"

text \<open>
  \<open>z.url()\<close>: a string that the WHATWG URL parser accepts. The parser is a parameter:
  \<open>url s = Some s'\<close> when \<open>new URL\<close> accepts \<open>s\<close>, with \<open>s'\<close> the value zod returns
  (the input, or its trimmed or normalised form depending on the zod release).
\<close>

definition z_url :: "(string \<Rightarrow> string option) \<Rightarrow> jsval \<Rightarrow> string zresult" where
  "z_url url v = (case v of
     JString s \<Rightarrow> (case url s of Some s' \<Rightarrow> Inr s' | None \<Rightarrow> Inl [mk_issue InvalidFormat])
   | _ \<Rightarrow> Inl [mk_issue InvalidType])"

text \<open>\<open>z.nullable(s)\<close>\<close>

definition z_nullable :: "(jsval \<Rightarrow> 'a zresult) \<Rightarrow> jsval \<Rightarrow> 'a option zresult" where
  "z_nullable f v = (if v = JNull then Inr None else z_map Some (f v))"

text \<open>\<open>z.array(s)\<close>: every element is checked, issues tagged with the index.\<close>

definition z_array :: "(jsval \<Rightarrow> 'a zresult) \<Rightarrow> jsval \<Rightarrow> 'a list zresult" where
  "z_array f v = (case v of
     JArray xs \<Rightarrow> z_all (map (\<lambda>(i, x). z_at (PIdx i) (f x)) (enumerate 0 xs))
   | _ \<Rightarrow> Inl [mk_issue InvalidType])"

text \<open>\<open>z.object({...})\<close>: a plain object, then each shape key read and checked.\<close>

definition z_object :: "(jsval \<Rightarrow> 'a zresult) \<Rightarrow> jsval \<Rightarrow> 'a zresult" where
  "z_object body v = (if is_object v then body v else Inl [mk_issue InvalidType])"

definition z_field :: "string \<Rightarrow> (jsval \<Rightarrow> 'a zresult) \<Rightarrow> jsval \<Rightarrow> 'a zresult" where
  "z_field k f v = z_at (PKey k) (f (js_get v k))"

subsection \<open>How results and issues compose\<close>

text \<open>
  A well-formed result fails only with at least one issue. Every primitive schema
  produces such results and every combinator keeps them, so a value is rejected exactly
  when an issue is reported.
\<close>

definition z_ok :: "'a zresult \<Rightarrow> bool" where
  "z_ok r \<longleftrightarrow> (case r of Inl iss \<Rightarrow> iss \<noteq> [] | Inr _ \<Rightarrow> True)"

lemma z_ok_simps [simp]: "z_ok (Inl iss) \<longleftrightarrow> iss \<noteq> []" "z_ok (Inr a)"
  by (simp_all add: z_ok_def)

lemma z_ok_isl: "z_ok r \<Longrightarrow> isl r \<longleftrightarrow> issues_of r \<noteq> []"
  by (cases r) auto

lemma issues_of_z_at [simp, zod_simps]: "issues_of (z_at p r) = prefix_issues p (issues_of r)"
  by (simp add: z_at_def prefix_issues_def split: sum.splits)

lemma z_at_Inr [simp, zod_simps]: "z_at p r = Inr a \<longleftrightarrow> r = Inr a"
  by (simp add: z_at_def split: sum.splits)

lemma z_at_ok [simp]: "z_ok (z_at p r) = z_ok r"
  by (simp add: z_at_def prefix_issues_def split: sum.splits)

lemma issues_of_z_map [simp, zod_simps]: "issues_of (z_map f r) = issues_of r"
  by (simp add: z_map_def split: sum.splits)

lemma z_map_Inr [simp, zod_simps]: "z_map f r = Inr b \<longleftrightarrow> (\<exists>a. r = Inr a \<and> b = f a)"
  by (auto simp: z_map_def split: sum.splits)

lemma z_map_ok [simp]: "z_ok (z_map f r) = z_ok r"
  by (simp add: z_map_def split: sum.splits)

lemma issues_of_z_and [simp, zod_simps]: "issues_of (z_and r1 r2) = issues_of r1 @ issues_of r2"
  by (simp add: z_and_def split: sum.splits)

lemma z_and_Inr [simp, zod_simps]: "z_and r1 r2 = Inr (a, b) \<longleftrightarrow> r1 = Inr a \<and> r2 = Inr b"
  by (simp add: z_and_def split: sum.splits)

lemma z_and_Inr_conv: "z_and r1 r2 = Inr p \<longleftrightarrow> r1 = Inr (fst p) \<and> r2 = Inr (snd p)"
  by (cases p) simp

lemma z_and_ok [simp]: "z_ok r1 \<Longrightarrow> z_ok r2 \<Longrightarrow> z_ok (z_and r1 r2)"
  by (auto simp: z_and_def z_ok_def split: sum.splits)

lemma z_and_isl: "isl (z_and r1 r2) \<longleftrightarrow> isl r1 \<or> isl r2"
  by (simp add: z_and_def split: sum.splits)

lemma issues_of_z_all [simp, zod_simps]: "issues_of (z_all rs) = concat (map issues_of rs)"
  by (induction rs) auto

lemma z_all_Inr [zod_simps]: "z_all rs = Inr xs \<longleftrightarrow> rs = map Inr xs"
proof (induction rs arbitrary: xs)
  case Nil
  then show ?case by auto
next
  case (Cons r rs)
  then show ?case
    by (cases xs) (auto simp: z_and_Inr_conv)
qed

lemma z_all_ok: "list_all z_ok rs \<Longrightarrow> z_ok (z_all rs)"
  by (induction rs) auto

lemma z_array_JArray_issues [zod_simps]:
  "issues_of (z_array f (JArray xs)) =
     concat (map (\<lambda>(i, x). prefix_issues (PIdx i) (issues_of (f x))) (enumerate 0 xs))"
  by (simp add: z_array_def comp_def case_prod_unfold)

lemma z_array_JArray_Inr [zod_simps]:
  "z_array f (JArray xs) = Inr ys \<longleftrightarrow> list_all2 (\<lambda>x y. f x = Inr y) xs ys"
proof -
  have "map (\<lambda>(i, x). z_at (PIdx i) (f x)) (enumerate n xs) = map Inr ys \<longleftrightarrow>
        list_all2 (\<lambda>x y. f x = Inr y) xs ys" for n
  proof (induction xs arbitrary: n ys)
    case Nil
    then show ?case by auto
  next
    case (Cons x xs)
    then show ?case by (cases ys) auto
  qed
  then show ?thesis by (simp add: z_array_def z_all_Inr)
qed

lemma z_array_ok: "(\<And>x. z_ok (f x)) \<Longrightarrow> z_ok (z_array f v)"
  by (auto simp: z_array_def list_all_iff case_prod_beta intro!: z_all_ok split: jsval.splits)

lemma z_object_ok: "(\<And>v. z_ok (body v)) \<Longrightarrow> z_ok (z_object body v)"
  by (simp add: z_object_def)

lemma z_field_ok: "(\<And>v. z_ok (f v)) \<Longrightarrow> z_ok (z_field k f v)"
  by (simp add: z_field_def)

lemma z_nullable_ok: "(\<And>v. z_ok (f v)) \<Longrightarrow> z_ok (z_nullable f v)"
  by (simp add: z_nullable_def)

lemma primitives_ok [simp]:
  "z_ok (z_string v)" "z_ok (z_boolean v)" "z_ok (z_int_positive v)" "z_ok (z_enum opts v)"
  "z_ok (z_url url v)"
  by (auto simp: z_string_def z_boolean_def z_int_positive_def z_enum_def z_url_def Let_def
      split: jsval.splits jsnum.splits option.splits)

lemmas z_combinators_ok = z_array_ok z_object_ok z_field_ok z_nullable_ok

lemma z_eval_Inr [simp, zod_simps]:
  "z_at p (Inr a) = Inr a" "z_map f (Inr a) = Inr (f a)" "z_and (Inr a) (Inr b) = Inr (a, b)"
  by (simp_all add: z_at_def z_map_def z_and_def)

lemma z_eval_Inl [simp, zod_simps]:
  "z_at p (Inl iss) = Inl (prefix_issues p iss)" "z_map f (Inl iss) = Inl iss"
  "z_and (Inl iss) r = Inl (iss @ issues_of r)" "z_and (Inr a) (Inl iss) = Inl iss"
  by (simp_all add: z_at_def z_map_def z_and_def)

lemma z_object_JObject [simp, zod_simps]: "z_object body (JObject kvs) = body (JObject kvs)"
  by (simp add: z_object_def)

lemma z_object_not_object [zod_simps]: "\<not> is_object v \<Longrightarrow> z_object body v = Inl [mk_issue InvalidType]"
  by (simp add: z_object_def)

lemma z_field_Inr [zod_simps]: "z_field k f v = Inr a \<longleftrightarrow> f (js_get v k) = Inr a"
  by (simp add: z_field_def)

lemma issues_of_z_field [zod_simps]:
  "issues_of (z_field k f v) = prefix_issues (PKey k) (issues_of (f (js_get v k)))"
  by (simp add: z_field_def)

lemma prefix_issues_simps [simp]:
  "prefix_issues p [] = []"
  "prefix_issues p (i # iss) = i\<lparr>ipath := p # ipath i\<rparr> # prefix_issues p iss"
  "prefix_issues p (iss @ iss') = prefix_issues p iss @ prefix_issues p iss'"
  by (simp_all add: prefix_issues_def)

lemma prefix_issues_mem:
  "i \<in> set iss \<Longrightarrow> i\<lparr>ipath := p # ipath i\<rparr> \<in> set (prefix_issues p iss)"
  by (simp add: prefix_issues_def)

lemma z_string_Inr [simp, zod_simps]: "z_string v = Inr s \<longleftrightarrow> v = JString s"
  by (auto simp: z_string_def split: jsval.splits)

lemma z_boolean_Inr [simp, zod_simps]: "z_boolean v = Inr b \<longleftrightarrow> v = JBool b"
  by (auto simp: z_boolean_def split: jsval.splits)

lemma z_url_Inr [simp, zod_simps]: "z_url url v = Inr s' \<longleftrightarrow> (\<exists>s. v = JString s \<and> url s = Some s')"
  by (auto simp: z_url_def split: jsval.splits option.splits)

lemma z_enum_Inr [simp, zod_simps]: "z_enum opts v = Inr a \<longleftrightarrow> (\<exists>s. v = JString s \<and> map_of opts s = Some a)"
  by (auto simp: z_enum_def split: jsval.splits option.splits)

lemma z_nullable_Inr [simp, zod_simps]:
  "z_nullable f v = Inr x \<longleftrightarrow> (v = JNull \<and> x = None) \<or> (v \<noteq> JNull \<and> (\<exists>a. f v = Inr a \<and> x = Some a))"
  by (auto simp: z_nullable_def)

subsection \<open>Positive integers\<close>

text \<open>The integers \<open>z.int().positive()\<close> accepts: from 1 up to \<open>Number.MAX_SAFE_INTEGER\<close>.\<close>

definition pos_safe :: "int \<Rightarrow> bool" where
  "pos_safe i \<longleftrightarrow> 0 < i \<and> i \<le> max_safe_integer"

lemma z_int_positive_Inr [zod_simps]:
  "z_int_positive v = Inr i \<longleftrightarrow>
     (\<exists>m e. v = JNumber (Finite m e) \<and> num_is_integer m e \<and> num_int_value m e = i) \<and> pos_safe i"
  by (auto simp: z_int_positive_def pos_safe_def max_safe_integer_def Let_def
      split: jsval.splits jsnum.splits if_splits)

text \<open>The JavaScript number of an integer, as an encoder writes it.\<close>

definition js_int :: "int \<Rightarrow> jsval" where
  "js_int i = JNumber (Finite i 0)"

lemma js_int_neq [simp]: "js_int i \<noteq> JNull" "js_int i \<noteq> JUndefined"
  by (simp_all add: js_int_def)

lemma z_int_positive_js_int [simp, zod_simps]: "pos_safe i \<Longrightarrow> z_int_positive (js_int i) = Inr i"
  by (simp add: z_int_positive_Inr js_int_def)

subsection \<open>Arrays of encoded elements\<close>

lemma z_array_encode:
  "(\<And>x. x \<in> set xs \<Longrightarrow> f (enc x) = Inr x) \<Longrightarrow> z_array f (JArray (map enc xs)) = Inr xs"
  by (simp add: z_array_JArray_Inr list_all2_conv_all_nth)

lemma z_array_Inr_elements:
  "z_array f v = Inr ys \<Longrightarrow> \<exists>xs. v = JArray xs \<and> list_all2 (\<lambda>x y. f x = Inr y) xs ys"
  by (cases v) (auto simp: z_array_def z_array_JArray_Inr[symmetric])

lemma z_array_sound:
  assumes "z_array f v = Inr ys" and "\<And>x y. f x = Inr y \<Longrightarrow> P y"
  shows "list_all P ys"
proof -
  from z_array_Inr_elements [OF assms(1)]
  obtain xs where "list_all2 (\<lambda>x y. f x = Inr y) xs ys" by blast
  then show ?thesis
    using assms(2) by (auto simp: list_all2_conv_all_nth list_all_length)
qed

lemma z_array_issue_at:
  assumes "i < length xs" and "j \<in> set (issues_of (f (xs ! i)))"
  shows "j\<lparr>ipath := PIdx i # ipath j\<rparr> \<in> set (issues_of (z_array f (JArray xs)))"
proof -
  have "(i, xs ! i) \<in> set (enumerate 0 xs)"
    using assms(1) by (simp add: in_set_enumerate_eq)
  with assms(2) show ?thesis
    by (force simp: z_array_JArray_issues prefix_issues_def)
qed

subsection \<open>Properties\<close>

text \<open>
  C8. The positive-integer policy of \<open>z.int().positive()\<close>: an integer is accepted
  exactly when it lies in \<open>[1, 2^53 - 1]\<close> (so 0 and negatives fail), a non-integer
  number always fails, and a string is not coerced.
\<close>

theorem z_int_positive_policy:
  "(\<not> isl (z_int_positive (js_int n)) \<longleftrightarrow> 1 \<le> n \<and> n \<le> 2 ^ 53 - 1) \<and>
   (\<not> num_is_integer m e \<longrightarrow> isl (z_int_positive (JNumber (Finite m e)))) \<and>
   isl (z_int_positive (JString s))"
proof (intro conjI impI)
  show "\<not> isl (z_int_positive (js_int n)) \<longleftrightarrow> 1 \<le> n \<and> n \<le> 2 ^ 53 - 1"
    by (auto simp: z_int_positive_def js_int_def max_safe_integer_def Let_def)
next
  assume "\<not> num_is_integer m e"
  then show "isl (z_int_positive (JNumber (Finite m e)))"
    by (simp add: z_int_positive_def)
next
  show "isl (z_int_positive (JString s))"
    by (simp add: z_int_positive_def)
qed

theorem z_int_positive_policy_witness:
  "(\<not> isl (z_int_positive (js_int 1500)) \<longleftrightarrow> (1::int) \<le> 1500 \<and> (1500::int) \<le> 2 ^ 53 - 1) \<and>
   \<not> num_is_integer 15 (-1) \<and> isl (z_int_positive (JNumber (Finite 15 (-1)))) \<and>
   isl (z_int_positive (JString ''7''))"
proof -
  have ni: "\<not> num_is_integer 15 (-1)" by (simp add: num_is_integer_def)
  show ?thesis
    using z_int_positive_policy [of 1500 15 "-1" "''7''"] ni by simp
qed

end
