(* ===== verification/Media.thy ===== *)
theory Media
  imports Zod
begin

text \<open>
  \<open>src/lib/types/media.ts\<close>: \<open>MediaSchema\<close>, one displayable asset with a positive
  id, a type from the closed set \<open>image\<close>, \<open>video/mp4\<close>, and a source locator. The
  output type \<open>Media\<close> is the record \<open>media\<close>; \<open>media_to_js\<close> writes a record back
  as the object it was read from, for the round-trip lemmas.
\<close>

datatype media_kind = Image | Video_mp4

definition media_kinds :: "(string \<times> media_kind) list" where
  "media_kinds = [(''image'', Image), (''video/mp4'', Video_mp4)]"

record media =
  media_pk :: int
  media_type :: media_kind
  media_src :: string

definition MediaSchema :: "jsval \<Rightarrow> media zresult" where
  "MediaSchema = z_object (\<lambda>obj.
     z_map (\<lambda>(pk, ty, src). \<lparr>media_pk = pk, media_type = ty, media_src = src\<rparr>)
       (z_and (z_field ''pk'' z_int_positive obj)
         (z_and (z_field ''type'' (z_enum media_kinds) obj)
           (z_field ''src'' z_string obj))))"

definition media_kind_name :: "media_kind \<Rightarrow> string" where
  "media_kind_name k = (case k of Image \<Rightarrow> ''image'' | Video_mp4 \<Rightarrow> ''video/mp4'')"

definition media_to_js :: "media \<Rightarrow> jsval" where
  "media_to_js m = JObject [(''pk'', js_int (media_pk m)),
     (''type'', JString (media_kind_name (media_type m))), (''src'', JString (media_src m))]"

definition media_wf :: "media \<Rightarrow> bool" where
  "media_wf m \<longleftrightarrow> pos_safe (media_pk m)"

lemma map_of_media_kinds: "map_of media_kinds s = Some k \<longleftrightarrow> s = media_kind_name k"
  by (cases k) (auto simp: media_kinds_def media_kind_name_def)

lemma z_enum_media_kind [simp]: "z_enum media_kinds (JString (media_kind_name k)) = Inr k"
  by (simp add: map_of_media_kinds)

lemma MediaSchema_Inr:
  "MediaSchema v = Inr m \<longleftrightarrow> is_object v \<and>
     z_int_positive (js_get v ''pk'') = Inr (media_pk m) \<and>
     z_enum media_kinds (js_get v ''type'') = Inr (media_type m) \<and>
     js_get v ''src'' = JString (media_src m)"
  by (cases v) (auto simp: MediaSchema_def z_object_def z_field_Inr)

lemma MediaSchema_ok: "z_ok (MediaSchema v)"
  by (simp add: MediaSchema_def z_combinators_ok)

lemma MediaSchema_issues_object:
  "is_object v \<Longrightarrow> issues_of (MediaSchema v) =
     prefix_issues (PKey ''pk'') (issues_of (z_int_positive (js_get v ''pk''))) @
     prefix_issues (PKey ''type'') (issues_of (z_enum media_kinds (js_get v ''type''))) @
     prefix_issues (PKey ''src'') (issues_of (z_string (js_get v ''src'')))"
  by (simp add: MediaSchema_def z_object_def issues_of_z_field)

lemma MediaSchema_fresh_keys:
  "fst ` set extra \<inter> {''pk'', ''type'', ''src''} = {} \<Longrightarrow>
     MediaSchema (JObject (kvs @ extra)) = MediaSchema (JObject kvs)"
proof -
  assume fresh: "fst ` set extra \<inter> {''pk'', ''type'', ''src''} = {}"
  have "js_get (JObject (kvs @ extra)) k = js_get (JObject kvs) k"
    if "k \<in> {''pk'', ''type'', ''src''}" for k
    using fresh that by (blast intro: js_get_append_fresh)
  then show ?thesis by (simp add: MediaSchema_def z_field_def)
qed

lemma MediaSchema_encode: "media_wf m \<Longrightarrow> MediaSchema (media_to_js m) = Inr m"
  by (simp add: MediaSchema_def media_to_js_def media_wf_def z_field_def)

subsection \<open>Properties\<close>

text \<open>
  C5. The output of \<open>MediaSchema\<close> is a well-formed \<open>Media\<close>: its id is a positive
  safe integer (the type invariant of the schema's output).
\<close>

theorem MediaSchema_sound: "MediaSchema v = Inr m \<Longrightarrow> media_wf m"
  by (auto simp: MediaSchema_Inr media_wf_def z_int_positive_Inr)

theorem MediaSchema_sound_witness:
  "MediaSchema (JObject [(''pk'', js_int 1), (''type'', JString ''video/mp4''), (''src'', JString ''/v.mp4'')]) =
     Inr \<lparr>media_pk = 1, media_type = Video_mp4, media_src = ''/v.mp4''\<rparr> \<and>
   media_wf \<lparr>media_pk = 1, media_type = Video_mp4, media_src = ''/v.mp4''\<rparr>"
proof -
  have ev: "MediaSchema (JObject [(''pk'', js_int 1), (''type'', JString ''video/mp4''), (''src'', JString ''/v.mp4'')]) =
     Inr \<lparr>media_pk = 1, media_type = Video_mp4, media_src = ''/v.mp4''\<rparr>"
    by (simp add: MediaSchema_def z_field_def media_kinds_def pos_safe_def max_safe_integer_def)
  show ?thesis using MediaSchema_sound [OF ev] ev by simp
qed

text \<open>
  C6. Validation rejects every payload whose \<open>type\<close> is not one of the two literals
  \<open>image\<close> and \<open>video/mp4\<close>; on an object it reports an \<open>invalid_value\<close> issue at the
  path \<open>type\<close>.
\<close>

theorem MediaSchema_rejects_type:
  assumes "js_get v ''type'' \<notin> {JString ''image'', JString ''video/mp4''}"
  shows "isl (MediaSchema v) \<and>
         (is_object v \<longrightarrow> (\<exists>i \<in> set (issues_of (MediaSchema v)).
             ipath i = [PKey ''type''] \<and> icode i = InvalidValue))"
proof -
  have enum: "z_enum media_kinds (js_get v ''type'') = Inl [mk_issue InvalidValue]"
    using assms by (auto simp: z_enum_def media_kinds_def split: jsval.splits)
  then have "\<not> (\<exists>m. MediaSchema v = Inr m)"
    by (simp add: MediaSchema_Inr)
  moreover have "is_object v \<longrightarrow> (\<exists>i \<in> set (issues_of (MediaSchema v)).
             ipath i = [PKey ''type''] \<and> icode i = InvalidValue)"
    using enum by (auto simp: MediaSchema_issues_object mk_issue_def)
  ultimately show ?thesis by (cases "MediaSchema v") auto
qed

theorem MediaSchema_rejects_type_witness:
  "js_get (JObject [(''pk'', js_int 1), (''type'', JString ''image/gif''), (''src'', JString ''/a.gif'')]) ''type''
     \<notin> {JString ''image'', JString ''video/mp4''} \<and>
   isl (MediaSchema (JObject [(''pk'', js_int 1), (''type'', JString ''image/gif''), (''src'', JString ''/a.gif'')]))"
proof -
  have h: "js_get (JObject [(''pk'', js_int 1), (''type'', JString ''image/gif''), (''src'', JString ''/a.gif'')]) ''type''
     \<notin> {JString ''image'', JString ''video/mp4''}" by simp
  show ?thesis using MediaSchema_rejects_type [OF h] h by simp
qed

end
