(* ===== verification/Kiosk.thy ===== *)
theory Kiosk
  imports Media
begin

text \<open>
  \<open>src/lib/types/kiosk.ts\<close>: \<open>MessageSchema\<close>, \<open>ConversationSchema\<close> and the aggregate
  \<open>KioskSchema\<close>, which nests the media playlist, the conversations (each nesting its
  messages) and the backend endpoints. The URL parser behind \<open>z.url()\<close> is the parameter
  \<open>url\<close> of every definition that reaches the endpoints.
\<close>

record message =
  msg_pk :: int
  msg_text :: string
  is_usr_msg :: bool

definition MessageSchema :: "jsval \<Rightarrow> message zresult" where
  "MessageSchema = z_object (\<lambda>obj.
     z_map (\<lambda>(pk, txt, usr). \<lparr>msg_pk = pk, msg_text = txt, is_usr_msg = usr\<rparr>)
       (z_and (z_field ''pk'' z_int_positive obj)
         (z_and (z_field ''text'' z_string obj)
           (z_field ''is_usr_msg'' z_boolean obj))))"

record conversation =
  conv_pk :: int
  messages :: "message list"

definition ConversationSchema :: "jsval \<Rightarrow> conversation zresult" where
  "ConversationSchema = z_object (\<lambda>obj.
     z_map (\<lambda>(pk, ms). \<lparr>conv_pk = pk, messages = ms\<rparr>)
       (z_and (z_field ''pk'' z_int_positive obj)
         (z_field ''messages'' (z_array MessageSchema) obj)))"

record backend =
  websocket :: string
  api :: string

text \<open>The inline \<open>backend: z.object({websocket: z.url(), api: z.url()})\<close>.\<close>

definition BackendSchema :: "(string \<Rightarrow> string option) \<Rightarrow> jsval \<Rightarrow> backend zresult" where
  "BackendSchema url = z_object (\<lambda>obj.
     z_map (\<lambda>(ws, a). \<lparr>websocket = ws, api = a\<rparr>)
       (z_and (z_field ''websocket'' (z_url url) obj)
         (z_field ''api'' (z_url url) obj)))"

record kiosk =
  kiosk_id :: int
  kiosk_name :: string
  image_duration_ms :: int
  kiosk_media :: "media list"
  chat_placeholder :: string
  conversations :: "conversation list"
  kiosk_backend :: backend

definition KioskSchema :: "(string \<Rightarrow> string option) \<Rightarrow> jsval \<Rightarrow> kiosk zresult" where
  "KioskSchema url = z_object (\<lambda>obj.
     z_map (\<lambda>(i, n, d, m, c, cs, b). \<lparr>kiosk_id = i, kiosk_name = n, image_duration_ms = d,
              kiosk_media = m, chat_placeholder = c, conversations = cs, kiosk_backend = b\<rparr>)
       (z_and (z_field ''id'' z_int_positive obj)
         (z_and (z_field ''name'' z_string obj)
           (z_and (z_field ''image_duration_ms'' z_int_positive obj)
             (z_and (z_field ''media'' (z_array MediaSchema) obj)
               (z_and (z_field ''chat_placeholder'' z_string obj)
                 (z_and (z_field ''conversations'' (z_array ConversationSchema) obj)
                   (z_field ''backend'' (BackendSchema url) obj))))))))"

subsection \<open>Encoding and well-formedness\<close>

definition message_to_js :: "message \<Rightarrow> jsval" where
  "message_to_js m = JObject [(''pk'', js_int (msg_pk m)), (''text'', JString (msg_text m)),
     (''is_usr_msg'', JBool (is_usr_msg m))]"

definition conversation_to_js :: "conversation \<Rightarrow> jsval" where
  "conversation_to_js c = JObject [(''pk'', js_int (conv_pk c)),
     (''messages'', JArray (map message_to_js (messages c)))]"

definition backend_to_js :: "backend \<Rightarrow> jsval" where
  "backend_to_js b = JObject [(''websocket'', JString (websocket b)), (''api'', JString (api b))]"

definition kiosk_to_js :: "kiosk \<Rightarrow> jsval" where
  "kiosk_to_js k = JObject [(''id'', js_int (kiosk_id k)), (''name'', JString (kiosk_name k)),
     (''image_duration_ms'', js_int (image_duration_ms k)),
     (''media'', JArray (map media_to_js (kiosk_media k))),
     (''chat_placeholder'', JString (chat_placeholder k)),
     (''conversations'', JArray (map conversation_to_js (conversations k))),
     (''backend'', backend_to_js (kiosk_backend k))]"

text \<open>
  The URL parser's contract: what it returns it accepts again unchanged (trimming and
  \<open>href\<close> normalisation are idempotent).
\<close>

definition url_contract :: "(string \<Rightarrow> string option) \<Rightarrow> bool" where
  "url_contract url \<longleftrightarrow> (\<forall>s s'. url s = Some s' \<longrightarrow> url s' = Some s')"

definition message_wf :: "message \<Rightarrow> bool" where
  "message_wf m \<longleftrightarrow> pos_safe (msg_pk m)"

definition conversation_wf :: "conversation \<Rightarrow> bool" where
  "conversation_wf c \<longleftrightarrow> pos_safe (conv_pk c) \<and> list_all message_wf (messages c)"

definition backend_wf :: "(string \<Rightarrow> string option) \<Rightarrow> backend \<Rightarrow> bool" where
  "backend_wf url b \<longleftrightarrow> url (websocket b) = Some (websocket b) \<and> url (api b) = Some (api b)"

definition kiosk_wf :: "(string \<Rightarrow> string option) \<Rightarrow> kiosk \<Rightarrow> bool" where
  "kiosk_wf url k \<longleftrightarrow> pos_safe (kiosk_id k) \<and> pos_safe (image_duration_ms k) \<and>
     list_all media_wf (kiosk_media k) \<and> list_all conversation_wf (conversations k) \<and>
     backend_wf url (kiosk_backend k)"

subsection \<open>Evaluation\<close>

lemma MessageSchema_Inr:
  "MessageSchema v = Inr m \<longleftrightarrow> is_object v \<and>
     z_int_positive (js_get v ''pk'') = Inr (msg_pk m) \<and>
     js_get v ''text'' = JString (msg_text m) \<and> js_get v ''is_usr_msg'' = JBool (is_usr_msg m)"
  by (cases v) (auto simp: MessageSchema_def z_object_def z_field_Inr)

lemma ConversationSchema_Inr:
  "ConversationSchema v = Inr c \<longleftrightarrow> is_object v \<and>
     z_int_positive (js_get v ''pk'') = Inr (conv_pk c) \<and>
     z_array MessageSchema (js_get v ''messages'') = Inr (messages c)"
  by (cases v) (auto simp: ConversationSchema_def z_object_def z_field_Inr)

lemma BackendSchema_Inr:
  "BackendSchema url v = Inr b \<longleftrightarrow> is_object v \<and>
     z_url url (js_get v ''websocket'') = Inr (websocket b) \<and> z_url url (js_get v ''api'') = Inr (api b)"
  by (cases v) (auto simp: BackendSchema_def z_object_def z_field_Inr simp del: z_url_Inr)

lemma KioskSchema_Inr:
  "KioskSchema url v = Inr k \<longleftrightarrow> is_object v \<and>
     z_int_positive (js_get v ''id'') = Inr (kiosk_id k) \<and>
     js_get v ''name'' = JString (kiosk_name k) \<and>
     z_int_positive (js_get v ''image_duration_ms'') = Inr (image_duration_ms k) \<and>
     z_array MediaSchema (js_get v ''media'') = Inr (kiosk_media k) \<and>
     js_get v ''chat_placeholder'' = JString (chat_placeholder k) \<and>
     z_array ConversationSchema (js_get v ''conversations'') = Inr (conversations k) \<and>
     BackendSchema url (js_get v ''backend'') = Inr (kiosk_backend k)"
  by (cases v) (auto simp: KioskSchema_def z_object_def z_field_Inr)

lemma MessageSchema_ok: "z_ok (MessageSchema v)"
  by (simp add: MessageSchema_def z_combinators_ok)

lemma ConversationSchema_ok: "z_ok (ConversationSchema v)"
  by (simp add: ConversationSchema_def z_combinators_ok MessageSchema_ok)

lemma BackendSchema_ok: "z_ok (BackendSchema url v)"
  by (simp add: BackendSchema_def z_combinators_ok)

lemma KioskSchema_ok: "z_ok (KioskSchema url v)"
  by (simp add: KioskSchema_def z_combinators_ok MediaSchema_ok ConversationSchema_ok BackendSchema_ok)

subsection \<open>Soundness and encoding of the nested schemas\<close>

lemma MessageSchema_sound: "MessageSchema v = Inr m \<Longrightarrow> message_wf m"
  by (auto simp: MessageSchema_Inr message_wf_def z_int_positive_Inr)

lemma ConversationSchema_sound: "ConversationSchema v = Inr c \<Longrightarrow> conversation_wf c"
  by (auto simp: ConversationSchema_Inr conversation_wf_def z_int_positive_Inr
      intro: z_array_sound MessageSchema_sound)

lemma BackendSchema_sound: "url_contract url \<Longrightarrow> BackendSchema url v = Inr b \<Longrightarrow> backend_wf url b"
  by (auto simp: BackendSchema_Inr backend_wf_def url_contract_def)

lemma MessageSchema_encode: "message_wf m \<Longrightarrow> MessageSchema (message_to_js m) = Inr m"
  by (simp add: MessageSchema_def message_to_js_def message_wf_def z_field_def)

lemma ConversationSchema_encode:
  "conversation_wf c \<Longrightarrow> ConversationSchema (conversation_to_js c) = Inr c"
  by (simp add: ConversationSchema_def conversation_to_js_def conversation_wf_def z_field_def
      list_all_iff MessageSchema_encode z_array_encode)

lemma BackendSchema_encode: "backend_wf url b \<Longrightarrow> BackendSchema url (backend_to_js b) = Inr b"
  by (simp add: BackendSchema_def backend_to_js_def backend_wf_def z_field_def z_url_def)

lemmas schema_encode = MediaSchema_encode MessageSchema_encode ConversationSchema_encode
  BackendSchema_encode

subsection \<open>A concrete URL parser and payload\<close>

text \<open>
  For evaluation: a parser that accepts a string with an RFC 3986 scheme (a letter, then
  letters, digits, \<open>+\<close>, \<open>-\<close>, \<open>.\<close>) followed by a colon and a non-empty rest, and returns
  it unchanged. It satisfies \<open>url_contract\<close>, as the WHATWG parser does.
\<close>

definition url_has_scheme :: "string \<Rightarrow> string option" where
  "url_has_scheme s =
     (let sch = takeWhile (\<lambda>c. is_alnum c \<or> c \<in> {CHR ''+'', CHR ''-'', CHR ''.''}) s;
          rest = dropWhile (\<lambda>c. is_alnum c \<or> c \<in> {CHR ''+'', CHR ''-'', CHR ''.''}) s
      in if sch \<noteq> [] \<and> \<not> is_digit (hd sch) \<and> hd sch \<notin> {CHR ''+'', CHR ''-'', CHR ''.''}
            \<and> take 1 rest = '':'' \<and> length rest > 1
         then Some s else None)"

lemma url_contract_has_scheme: "url_contract url_has_scheme"
  by (auto simp: url_contract_def url_has_scheme_def Let_def split: if_splits)

definition example_kiosk_payload :: jsval where
  "example_kiosk_payload = JObject [
     (''id'', js_int 7), (''name'', JString ''Lobby''), (''image_duration_ms'', js_int 5000),
     (''media'', JArray [JObject [(''pk'', js_int 1), (''type'', JString ''image''),
                                  (''src'', JString ''/a.png'')]]),
     (''chat_placeholder'', JString ''Ask me''),
     (''conversations'', JArray [JObject [(''pk'', js_int 3), (''messages'',
        JArray [JObject [(''pk'', js_int 4), (''text'', JString ''hi''),
                         (''is_usr_msg'', JBool True)]])]]),
     (''backend'', JObject [(''websocket'', JString ''ws://k/ws''), (''api'', JString ''http://k/api'')]),
     (''location'', JString ''hall'')]"

definition example_kiosk :: kiosk where
  "example_kiosk = \<lparr>kiosk_id = 7, kiosk_name = ''Lobby'', image_duration_ms = 5000,
     kiosk_media = [\<lparr>media_pk = 1, media_type = Image, media_src = ''/a.png''\<rparr>],
     chat_placeholder = ''Ask me'',
     conversations = [\<lparr>conv_pk = 3, messages = [\<lparr>msg_pk = 4, msg_text = ''hi'', is_usr_msg = True\<rparr>]\<rparr>],
     kiosk_backend = \<lparr>websocket = ''ws://k/ws'', api = ''http://k/api''\<rparr>\<rparr>"

lemma example_kiosk_validates: "KioskSchema url_has_scheme example_kiosk_payload = Inr example_kiosk"
  by (simp add: KioskSchema_Inr example_kiosk_payload_def example_kiosk_def z_array_JArray_Inr
      MediaSchema_Inr ConversationSchema_Inr MessageSchema_Inr BackendSchema_Inr
      media_kinds_def url_has_scheme_def pos_safe_def max_safe_integer_def js_int_def
      z_int_positive_Inr is_alnum_def is_digit_def)

definition example_bad_payload :: jsval where
  "example_bad_payload = JObject [
     (''id'', js_int 0), (''name'', JString ''Lobby''), (''image_duration_ms'', js_int 5000),
     (''media'', JArray [JObject [(''pk'', js_int 1), (''type'', JString ''image''),
                                  (''src'', JString ''/a.png'')],
                         JObject [(''pk'', js_int 2), (''type'', JString ''gif''),
                                  (''src'', JString ''/b.gif'')]]),
     (''chat_placeholder'', JString ''Ask me''), (''conversations'', JArray []),
     (''backend'', JObject [(''websocket'', JString ''ws://k/ws''), (''api'', JString ''http://k/api'')])]"

lemma kiosk_field_issues:
  "is_object v \<Longrightarrow> issues_of (KioskSchema url v) =
     prefix_issues (PKey ''id'') (issues_of (z_int_positive (js_get v ''id''))) @
     prefix_issues (PKey ''name'') (issues_of (z_string (js_get v ''name''))) @
     prefix_issues (PKey ''image_duration_ms'') (issues_of (z_int_positive (js_get v ''image_duration_ms''))) @
     prefix_issues (PKey ''media'') (issues_of (z_array MediaSchema (js_get v ''media''))) @
     prefix_issues (PKey ''chat_placeholder'') (issues_of (z_string (js_get v ''chat_placeholder''))) @
     prefix_issues (PKey ''conversations'') (issues_of (z_array ConversationSchema (js_get v ''conversations''))) @
     prefix_issues (PKey ''backend'') (issues_of (BackendSchema url (js_get v ''backend'')))"
  by (simp add: KioskSchema_def z_object_def issues_of_z_field)

subsection \<open>Properties\<close>

text \<open>
  C2. Every kiosk \<open>KioskSchema\<close> returns is well-formed: positive safe ids and image
  duration, well-formed media, conversations and messages, and endpoints the URL parser
  accepts unchanged (the type invariant of the output).
\<close>

theorem KioskSchema_sound:
  assumes "url_contract url" and "KioskSchema url v = Inr k"
  shows "kiosk_wf url k"
  using assms
  by (auto simp: KioskSchema_Inr kiosk_wf_def z_int_positive_Inr
      intro: z_array_sound MediaSchema_sound ConversationSchema_sound BackendSchema_sound)

theorem KioskSchema_sound_witness:
  "url_contract url_has_scheme \<and> KioskSchema url_has_scheme example_kiosk_payload = Inr example_kiosk \<and>
   kiosk_wf url_has_scheme example_kiosk"
  using KioskSchema_sound [OF url_contract_has_scheme example_kiosk_validates]
    url_contract_has_scheme example_kiosk_validates by simp

text \<open>
  C3. A well-formed kiosk, written back as the object it denotes, validates to itself
  (encode, then validate, is the identity).
\<close>

theorem KioskSchema_encode: "kiosk_wf url k \<Longrightarrow> KioskSchema url (kiosk_to_js k) = Inr k"
  by (simp add: KioskSchema_def kiosk_to_js_def kiosk_wf_def z_field_def list_all_iff
      schema_encode z_array_encode)

theorem KioskSchema_encode_witness:
  "kiosk_wf url_has_scheme example_kiosk \<and>
   KioskSchema url_has_scheme (kiosk_to_js example_kiosk) = Inr example_kiosk"
proof -
  have wf: "kiosk_wf url_has_scheme example_kiosk"
    by (rule KioskSchema_sound [OF url_contract_has_scheme example_kiosk_validates])
  show ?thesis using KioskSchema_encode [OF wf] wf by simp
qed

text \<open>
  C1. Validation is idempotent: validating a payload and then validating the validated
  value again gives the same kiosk (the value satisfies its own schema).
\<close>

theorem KioskSchema_idempotent:
  assumes "url_contract url" and "KioskSchema url v = Inr k"
  shows "KioskSchema url (kiosk_to_js k) = Inr k"
  using KioskSchema_encode KioskSchema_sound [OF assms] by blast

theorem KioskSchema_idempotent_witness:
  "url_contract url_has_scheme \<and> KioskSchema url_has_scheme example_kiosk_payload = Inr example_kiosk \<and>
   KioskSchema url_has_scheme (kiosk_to_js example_kiosk) = Inr example_kiosk"
  using KioskSchema_idempotent [OF url_contract_has_scheme example_kiosk_validates]
    url_contract_has_scheme example_kiosk_validates by simp

text \<open>
  C4. Validation is total and reports every violation: the kiosk is rejected exactly when
  an issue is reported, and on an object the issues are those of its seven fields, in
  field order, each tagged with its key.
\<close>

theorem KioskSchema_issues:
  "(isl (KioskSchema url v) \<longleftrightarrow> issues_of (KioskSchema url v) \<noteq> []) \<and>
   (is_object v \<longrightarrow> issues_of (KioskSchema url v) =
     prefix_issues (PKey ''id'') (issues_of (z_int_positive (js_get v ''id''))) @
     prefix_issues (PKey ''name'') (issues_of (z_string (js_get v ''name''))) @
     prefix_issues (PKey ''image_duration_ms'') (issues_of (z_int_positive (js_get v ''image_duration_ms''))) @
     prefix_issues (PKey ''media'') (issues_of (z_array MediaSchema (js_get v ''media''))) @
     prefix_issues (PKey ''chat_placeholder'') (issues_of (z_string (js_get v ''chat_placeholder''))) @
     prefix_issues (PKey ''conversations'') (issues_of (z_array ConversationSchema (js_get v ''conversations''))) @
     prefix_issues (PKey ''backend'') (issues_of (BackendSchema url (js_get v ''backend''))))"
  using KioskSchema_ok [THEN z_ok_isl] kiosk_field_issues by blast

theorem KioskSchema_issues_witness:
  "is_object example_bad_payload \<and>
   issues_of (KioskSchema url_has_scheme example_bad_payload) =
     [\<lparr>icode = TooSmall, ipath = [PKey ''id'']\<rparr>,
      \<lparr>icode = InvalidValue, ipath = [PKey ''media'', PIdx 1, PKey ''type'']\<rparr>]"
proof -
  have obj: "is_object example_bad_payload" by (simp add: example_bad_payload_def)
  note eq = KioskSchema_issues [of url_has_scheme example_bad_payload, THEN conjunct2, THEN mp, OF obj]
  have "prefix_issues (PKey ''id'') (issues_of (z_int_positive (js_get example_bad_payload ''id''))) =
          [\<lparr>icode = TooSmall, ipath = [PKey ''id'']\<rparr>]"
    by (simp add: example_bad_payload_def z_int_positive_def js_int_def mk_issue_def max_safe_integer_def)
  moreover have "prefix_issues (PKey ''media'') (issues_of (z_array MediaSchema (js_get example_bad_payload ''media''))) =
          [\<lparr>icode = InvalidValue, ipath = [PKey ''media'', PIdx 1, PKey ''type'']\<rparr>]"
    by (simp add: example_bad_payload_def z_array_JArray_issues MediaSchema_issues_object
        z_int_positive_def z_enum_def media_kinds_def z_string_def js_int_def mk_issue_def
        max_safe_integer_def)
  moreover have "issues_of (BackendSchema url_has_scheme (js_get example_bad_payload ''backend'')) = []"
    by (simp add: example_bad_payload_def BackendSchema_def z_field_def url_has_scheme_def z_url_def
        is_alnum_def is_digit_def)
  moreover have "issues_of (z_array ConversationSchema (js_get example_bad_payload ''conversations'')) = []"
    by (simp add: example_bad_payload_def z_array_def)
  moreover have "issues_of (z_string (js_get example_bad_payload ''name'')) = []"
    and "issues_of (z_string (js_get example_bad_payload ''chat_placeholder'')) = []"
    and "issues_of (z_int_positive (js_get example_bad_payload ''image_duration_ms'')) = []"
    by (simp_all add: example_bad_payload_def z_int_positive_def js_int_def max_safe_integer_def
        z_string_def)
  ultimately show ?thesis
    using obj eq by (simp only: prefix_issues_simps append_Nil append_Cons)
qed

text \<open>
  C7. A failure anywhere in the media playlist reaches the kiosk's issues, tagged with
  its full path: an issue of the \<open>i\<close>-th media element at path \<open>p\<close> is reported at
  \<open>media[i].p\<close>.
\<close>

theorem KioskSchema_media_issue:
  assumes "is_object v" and "js_get v ''media'' = JArray ms" and "i < length ms"
    and "j \<in> set (issues_of (MediaSchema (ms ! i)))"
  shows "j\<lparr>ipath := PKey ''media'' # PIdx i # ipath j\<rparr> \<in> set (issues_of (KioskSchema url v))"
proof -
  have "j\<lparr>ipath := PIdx i # ipath j\<rparr> \<in> set (issues_of (z_array MediaSchema (JArray ms)))"
    using assms(3,4) by (rule z_array_issue_at)
  then have "j\<lparr>ipath := PIdx i # ipath j\<rparr>\<lparr>ipath := PKey ''media'' # ipath (j\<lparr>ipath := PIdx i # ipath j\<rparr>)\<rparr>
      \<in> set (prefix_issues (PKey ''media'') (issues_of (z_array MediaSchema (js_get v ''media''))))"
    unfolding assms(2) by (rule prefix_issues_mem)
  then have "j\<lparr>ipath := PKey ''media'' # PIdx i # ipath j\<rparr>
      \<in> set (prefix_issues (PKey ''media'') (issues_of (z_array MediaSchema (js_get v ''media''))))"
    by simp
  then show ?thesis
    by (simp only: kiosk_field_issues [OF assms(1)] set_append Un_iff simp_thms)
qed

theorem KioskSchema_media_issue_witness:
  "\<lparr>icode = InvalidValue, ipath = [PKey ''media'', PIdx 1, PKey ''type'']\<rparr>
     \<in> set (issues_of (KioskSchema url_has_scheme example_bad_payload))"
proof -
  let ?ms = "[JObject [(''pk'', js_int 1), (''type'', JString ''image''), (''src'', JString ''/a.png'')],
              JObject [(''pk'', js_int 2), (''type'', JString ''gif''), (''src'', JString ''/b.gif'')]]"
  have obj: "is_object example_bad_payload" and ms: "js_get example_bad_payload ''media'' = JArray ?ms"
    by (simp_all add: example_bad_payload_def)
  have j: "\<lparr>icode = InvalidValue, ipath = [PKey ''type'']\<rparr> \<in> set (issues_of (MediaSchema (?ms ! 1)))"
    by (simp add: MediaSchema_issues_object z_int_positive_def z_enum_def media_kinds_def z_string_def
        js_int_def mk_issue_def max_safe_integer_def)
  have "\<lparr>icode = InvalidValue, ipath = [PKey ''type'']\<rparr>\<lparr>ipath := PKey ''media'' # PIdx 1 # [PKey ''type'']\<rparr>
     \<in> set (issues_of (KioskSchema url_has_scheme example_bad_payload))"
    using KioskSchema_media_issue [OF obj ms _ j, of url_has_scheme] by simp
  then show ?thesis by simp
qed

end
