(* ===== verification/Announcement.thy ===== *)
theory Announcement
  imports Zod
begin

text \<open>
  \<open>src/lib/types/announcement.ts\<close>: \<open>AnnouncementSchema\<close>, a title, a text and a
  display duration that is a positive integer or \<open>null\<close>.
\<close>

record announcement =
  title :: string
  ann_text :: string
  duration_ms :: "int option"

definition AnnouncementSchema :: "jsval \<Rightarrow> announcement zresult" where
  "AnnouncementSchema = z_object (\<lambda>obj.
     z_map (\<lambda>(t, x, d). \<lparr>title = t, ann_text = x, duration_ms = d\<rparr>)
       (z_and (z_field ''title'' z_string obj)
         (z_and (z_field ''text'' z_string obj)
           (z_field ''duration_ms'' (z_nullable z_int_positive) obj))))"

definition announcement_to_js :: "announcement \<Rightarrow> jsval" where
  "announcement_to_js a = JObject [(''title'', JString (title a)), (''text'', JString (ann_text a)),
     (''duration_ms'', (case duration_ms a of None \<Rightarrow> JNull | Some d \<Rightarrow> js_int d))]"

definition announcement_wf :: "announcement \<Rightarrow> bool" where
  "announcement_wf a \<longleftrightarrow> (case duration_ms a of None \<Rightarrow> True | Some d \<Rightarrow> pos_safe d)"

text \<open>An announcement payload with the given \<open>duration_ms\<close> value.\<close>

definition announcement_payload :: "jsval \<Rightarrow> jsval" where
  "announcement_payload d = JObject [(''title'', JString ''Closing''), (''text'', JString ''at 6pm''),
     (''duration_ms'', d)]"

lemma AnnouncementSchema_Inr:
  "AnnouncementSchema v = Inr a \<longleftrightarrow> is_object v \<and>
     js_get v ''title'' = JString (title a) \<and> js_get v ''text'' = JString (ann_text a) \<and>
     z_nullable z_int_positive (js_get v ''duration_ms'') = Inr (duration_ms a)"
  by (cases v) (auto simp: AnnouncementSchema_def z_object_def z_field_Inr simp del: z_nullable_Inr)

subsection \<open>Properties\<close>

text \<open>
  C9. Every object without a \<open>duration_ms\<close> property is rejected, whatever its title and
  text, and the last issue is a type error at \<open>duration_ms\<close>: \<open>z.nullable\<close> admits \<open>null\<close>
  but not a missing key, which reads as \<open>undefined\<close>.
\<close>

theorem AnnouncementSchema_missing_duration:
  assumes "is_object v" "js_get v ''duration_ms'' = JUndefined"
  shows "\<exists>iss. AnnouncementSchema v = Inl (iss @ [\<lparr>icode = InvalidType, ipath = [PKey ''duration_ms'']\<rparr>])"
proof -
  have d: "z_field ''duration_ms'' (z_nullable z_int_positive) v =
      Inl [\<lparr>icode = InvalidType, ipath = [PKey ''duration_ms'']\<rparr>]"
    using assms(2) by (simp add: z_field_def z_nullable_def z_int_positive_def z_map_def z_at_def
        prefix_issues_def mk_issue_def)
  show ?thesis using assms(1) d
    by (simp add: AnnouncementSchema_def z_object_def z_and_def z_map_def split: sum.split)
qed

theorem AnnouncementSchema_missing_duration_witness:
  "\<exists>iss. AnnouncementSchema (JObject [(''title'', JString ''Closing''), (''text'', JString ''at 6pm'')]) =
     Inl (iss @ [\<lparr>icode = InvalidType, ipath = [PKey ''duration_ms'']\<rparr>])"
  using AnnouncementSchema_missing_duration [of "JObject [(''title'', JString ''Closing''), (''text'', JString ''at 6pm'')]"]
  by simp

text \<open>
  C10. Every validated announcement is well-formed (its duration, when present, is a
  positive safe integer), and a well-formed announcement written back as an object
  validates to itself.
\<close>

theorem AnnouncementSchema_sound_encode:
  "(AnnouncementSchema v = Inr a \<longrightarrow> announcement_wf a) \<and>
   (announcement_wf a \<longrightarrow> AnnouncementSchema (announcement_to_js a) = Inr a)"
proof (intro conjI impI)
  assume "AnnouncementSchema v = Inr a"
  then show "announcement_wf a"
    by (auto simp: AnnouncementSchema_Inr announcement_wf_def z_int_positive_Inr z_nullable_def
        split: option.splits if_splits)
next
  assume "announcement_wf a"
  then show "AnnouncementSchema (announcement_to_js a) = Inr a"
    by (cases a; cases "duration_ms a")
      (auto simp: AnnouncementSchema_def announcement_to_js_def announcement_wf_def z_field_def
        z_nullable_def)
qed

theorem AnnouncementSchema_sound_encode_witness:
  "AnnouncementSchema (announcement_payload (js_int 1500)) =
      Inr \<lparr>title = ''Closing'', ann_text = ''at 6pm'', duration_ms = Some 1500\<rparr> \<and>
   announcement_wf \<lparr>title = ''Closing'', ann_text = ''at 6pm'', duration_ms = Some 1500\<rparr> \<and>
   AnnouncementSchema (announcement_to_js \<lparr>title = ''Closing'', ann_text = ''at 6pm'', duration_ms = Some 1500\<rparr>) =
      Inr \<lparr>title = ''Closing'', ann_text = ''at 6pm'', duration_ms = Some 1500\<rparr>"
proof -
  have ev: "AnnouncementSchema (announcement_payload (js_int 1500)) =
      Inr \<lparr>title = ''Closing'', ann_text = ''at 6pm'', duration_ms = Some 1500\<rparr>"
    by (simp add: AnnouncementSchema_def announcement_payload_def z_field_def z_nullable_def
        pos_safe_def max_safe_integer_def)
  have wf: "announcement_wf \<lparr>title = ''Closing'', ann_text = ''at 6pm'', duration_ms = Some 1500\<rparr>"
    using AnnouncementSchema_sound_encode [of "announcement_payload (js_int 1500)"] ev by blast
  show ?thesis
    using AnnouncementSchema_sound_encode [of "announcement_payload (js_int 1500)"
        "\<lparr>title = ''Closing'', ann_text = ''at 6pm'', duration_ms = Some 1500\<rparr>"] ev wf
    by simp
qed

end
