(* ===== verification/Spec2Isabelle.thy ===== *)
theory Spec2Isabelle
  imports Faker JsonParse Kiosk Announcement
begin

text \<open>
  Verification development of the kiosk front-end library (tofu345/kiosk_frontend,
  sources under \<open>src/src/lib\<close>). The library has three parts that do not call one
  another: the zod schemas that validate the backend's payloads
  (\<open>types/media.ts\<close>, \<open>types/kiosk.ts\<close>, \<open>types/announcement.ts\<close>) with the types
  inferred from them and the plain \<open>SensorData\<close> type (\<open>types/sensorData.ts\<close>); the
  sensor-data synthesizer (\<open>utils/generateSensorData.ts\<close>), which reads the clock and
  calls \<open>faker.number.int\<close> six times; and the JSON highlighter (\<open>utils/highlight.ts\<close>),
  \<open>highlight(obj) = syntaxHighlight(JSON.stringify(obj, undefined, 4))\<close>.

  \<^bold>\<open>Theories.\<close>
  \<^item> \<open>Prelude\<close>: the regex character classes on 8-bit code units, \<open>join\<close>,
    one-character \<open>replace\<close>, and the exception-and-state bind \<open>ebind\<close>.
  \<^item> \<open>JsValue\<close>: JavaScript values (\<open>jsval\<close>); a number is its shortest decimal
    \<open>Finite m e\<close> (\<open>m \<cdot> 10^e\<close>) or \<open>NaN\<close>/\<open>\<pm>Infinity\<close>; an object is the list of its own
    enumerable properties in property order (keys distinct, as in a JS object).
  \<^item> \<open>Zod\<close>: the zod 4 schemas the sources use, each a validator
    \<open>jsval \<Rightarrow> issue list + 'a\<close>: \<open>z_string\<close>, \<open>z_boolean\<close>, \<open>z_int_positive\<close>
    (\<open>z.int().positive()\<close>: the safe-integer check, then \<open>> 0\<close>), \<open>z_enum\<close>, \<open>z_url\<close>,
    \<open>z_nullable\<close>, \<open>z_array\<close> and \<open>z_object\<close>/\<open>z_field\<close>, which run every field and
    collect every issue with its path.
  \<^item> \<open>Media\<close>, \<open>Kiosk\<close>, \<open>Announcement\<close>: \<open>MediaSchema\<close>, \<open>MessageSchema\<close>,
    \<open>ConversationSchema\<close>, \<open>KioskSchema\<close> (with the inline backend object
    \<open>BackendSchema\<close>) and \<open>AnnouncementSchema\<close>, each a definition of the same name built
    from the shape in the source, with the inferred type as a \<open>record\<close>, an encoder back
    to \<open>jsval\<close> and a well-formedness predicate for the record.
  \<^item> \<open>Highlight\<close>: \<open>syntaxHighlight\<close>: \<open>escape_html\<close> (the three \<open>replace\<close> calls), one
    matcher per alternative of the token regex (\<open>match_string\<close>, \<open>match_literal\<close>,
    \<open>match_number\<close>, combined in order by \<open>match_token\<close>), the callback
    (\<open>token_class\<close>, \<open>highlight_token\<close>) and the global \<open>replace\<close> as the loop \<open>scan\<close>.
  \<^item> \<open>Stringify\<close>: \<open>JSON.stringify\<close> with a gap of four spaces (\<open>json_ser\<close>,
    \<open>quote_json\<close>, \<open>number_to_string\<close>, from the ECMAScript specification), and
    \<open>highlight\<close>, with its \<open>TypeError\<close> when \<open>JSON.stringify\<close> returns \<open>undefined\<close>. The
    contract of the spec is \<open>json_segments\<close>: the same pretty-printing, emitted as
    classified tokens and layout text.
  \<^item> \<open>JsonParse\<close>: \<open>JSON.parse\<close>, which the specification names as the way to read the
    highlighted text back, modelled from the ECMAScript specification: \<open>skip_ws\<close>, the number
    grammar (\<open>parse_int_part\<close>, \<open>parse_fraction\<close>, \<open>parse_exponent\<close>, \<open>parse_number\<close>), string
    literals with their escapes (\<open>parse_chars\<close>), and the recursive descent \<open>parse_value\<close>,
    \<open>parse_elements\<close>, \<open>parse_members\<close>, which builds objects as \<open>CreateDataProperty\<close> does
    (a repeated key keeps its place and takes the last value) and orders their keys as
    \<open>OrdinaryOwnPropertyKeys\<close> does (\<open>prop_order\<close>: array indices first). Errors are
    \<open>SyntaxError\<close> values.
  \<^item> \<open>SensorData\<close>: the \<open>sensor_data\<close> record and \<open>generateSensorData\<close> as a computation
    over the random source \<open>'r\<close>, with \<open>faker.number.int\<close> as a parameter, its six calls
    in the order of the object literal and the clock reading \<open>now\<close> (the time value of
    \<open>new Date()\<close> in milliseconds).
  \<^item> \<open>Faker\<close>: faker 9's \<open>number.int\<close> (\<open>number_int\<close>), a dependency, modelled from its
    published implementation: equal bounds return without drawing, \<open>max < min\<close> throws,
    otherwise \<open>Math.floor(real * delta + min)\<close> in doubles, where \<open>real = w / 2^53\<close> for a
    53-bit draw \<open>w\<close> of the default randomizer and each operation rounds to nearest,
    ties to even (\<open>round_half_even\<close>, \<open>round_double\<close>, exact on dyadic rationals). The
    randomizer is the sequence of its future draws, \<open>nat \<Rightarrow> 53 word\<close>.

  \<^bold>\<open>What is proved.\<close>
  \<^item> Schemas (C1--C10): the output of every schema is well-formed (positive safe
    integers, enum members, URLs the parser accepts); encoding a well-formed value and
    validating it gives it back, so validation is idempotent; a payload fails exactly when
    an issue is reported, the issues of a kiosk are those of its fields in order, each
    tagged with its path, also inside nested arrays; \<open>z.int().positive()\<close> accepts exactly
    the integers in \<open>[1, 2^53 - 1]\<close> and reports the issues of the others (C8); every object
    without \<open>duration_ms\<close> is rejected as an announcement, since \<open>z.nullable\<close> admits
    \<open>null\<close> and not \<open>undefined\<close> (C9).
  \<^item> Highlighter (C11--C13, C17, C18): stripping the tags and decoding the entities gives
    the input back; the output is text and spans of the five classes; each alternative of
    the regex gets its class; the three escaping passes equal one per-character pass; and
    the refinement: for every value, \<open>highlight\<close> is the rendering of \<open>json_segments\<close>, so
    every token of the pretty-printed JSON is in a span of its kind and the layout is
    unchanged, or the value is \<open>undefined\<close> and it throws. The proof is a structural
    induction over the serializer (\<open>scan_json\<close>) on lemmas saying that each token of the
    serializer is matched whole by the regex model and the layout characters never start
    a match.
  \<^item> Reading back (C19, in this theory, across \<open>Highlight\<close>, \<open>Stringify\<close> and
    \<open>JsonParse\<close>): for every JSON value (\<open>json_value\<close>) the text of \<open>highlight\<close>'s output,
    tags removed and entities decoded, parses back to the value itself, the round trip of
    the specification's section 8. The proof goes through \<open>parse_stringify_normal\<close>: for
    every value whose objects have distinct keys in property order (\<open>js_wf\<close>),
    \<open>JSON.parse\<close> of its serialization is the value in the normal form \<open>json_normal\<close>. It
    reads each token of the serializer back (\<open>parse_chars_json\<close>, \<open>parse_number_to_string\<close>
    over the five forms of \<open>Number::toString\<close>) and the layout (\<open>parse_elements_join\<close>,
    \<open>parse_members_join\<close>).
  \<^item> Synthesizer (C14--C16): with any \<open>number.int\<close> that keeps faker's documented range
    (\<open>int_contract\<close>), every reading is in its documented range. With faker's own
    \<open>number.int\<close> the generator never throws, consumes six draws and keeps five readings
    in range, but humidity lies in \<open>[30, 61]\<close>, and it is 61 exactly when the second draw
    is the largest, \<open>2^53 - 1\<close> (C16): one draw in \<open>2^53\<close>. The proof bounds the two
    roundings of \<open>Math.floor(real * 31 + 30)\<close> by half a unit in the last place
    (\<open>humidity_first\<close>, \<open>humidity_second\<close>).

  \<^bold>\<open>Parameters, bounds, termination.\<close> The WHATWG URL parser behind \<open>z.url()\<close> is a
  parameter \<open>url\<close> with the contract \<open>url_contract\<close> (what it returns it accepts
  unchanged); \<open>url_has_scheme\<close> instantiates it for the witnesses. No definition needs
  fuel: the matchers recurse on the string, \<open>scan\<close> and \<open>strip_tags\<close> terminate by the
  length of the input, as do \<open>parse_chars\<close> and the mutual \<open>parse_value\<close> (the latter with
  a check that a nested value consumed input, which \<open>parse_shorter\<close> shows never fails);
  \<open>json_ser\<close> and \<open>json_segments\<close> by the size of the value. The
  faker bounds hold for \<open>0 \<le> min < max\<close> with \<open>max + 1 < 2^53\<close>, which covers the six
  calls; values stay far from the subnormal and overflow ranges of doubles, so only the
  53-bit significand is modelled.

  \<^bold>\<open>Not modelled.\<close> The UI that consumes these functions, the network between backend and front end and
  the CSS classes (not in the sources); zod's error messages and options the sources do
  not use; the URL parser's algorithm (a parameter); the Mersenne Twister itself (its
  draws are arbitrary); \<open>Date\<close> objects (the time value stands for them); strings beyond
  Latin-1 code units, \<open>toJSON\<close> methods, replacers, functions, symbols and cyclic values
  in \<open>JSON.stringify\<close>. faker's version is not recorded in the sources; the model is
  faker 9's default 53-bit randomizer, and with a 32-bit randomizer the humidity 61 case
  cannot occur. In \<open>JSON.parse\<close>, a number literal is read as the exact decimal it
  denotes, which is the double \<open>JSON.parse\<close> returns for the shortest decimal of a double (what
  \<open>JSON.stringify\<close> writes) but not for longer literals, which the parser would round; \<open>-0\<close>
  reads as \<open>0\<close>, a \<open>\u\<close> escape above \<open>0xFF\<close> is reported as \<open>Unrepresentable\<close>, and the
  reviver argument is not modelled.
\<close>


section \<open>Properties across components\<close>

text \<open>
  C19. The round trip the specification asks of \<open>highlight\<close>: for every JSON value, \<open>highlight\<close>
  returns a string, and removing its tags, decoding its entities and parsing the result with
  \<open>JSON.parse\<close> gives back the original value.
\<close>

theorem highlight_reparse:
  assumes "json_value v"
  shows "\<exists>h. highlight v = Inr h \<and> json_parse (unescape_html (strip_tags h)) = Inr v"
proof -
  have v: "js_wf v" "json_normal v = v" "v \<noteq> JUndefined" using json_value_normal[OF assms] by simp_all
  obtain t where t: "json_stringify v = Some t" using v(3) json_ser_None[of "[]" v] by (cases "json_stringify v") (auto simp: json_stringify_def)
  obtain h where h: "highlight v = Inr h" using t by (simp add: highlight_def)
  show ?thesis using h highlight_text[OF h] t parse_stringify_normal[OF v(1) t] v(2) by auto
qed

theorem highlight_reparse_witness:
  "json_value spec_example \<and> (\<exists>h. highlight spec_example = Inr h \<and>
     json_parse (unescape_html (strip_tags h)) = Inr spec_example)"
proof -
  have "json_value spec_example"
    by (simp add: spec_example_def prop_order_def is_array_index_def is_digit_def num_normal_def
        num_of_decimal_def strip_zeros.simps)
  then show ?thesis using highlight_reparse by blast
qed

end
